theory Spec2Isabelle
  imports Main "HOL-Library.Log_Nat" "HOL-Library.AList" "HOL-Library.Multiset"
begin

section \<open>Python values used by \<open>lambda_s3_cost_report.py\<close>\<close>

text \<open>
  The handler reads CSV rows (lists of \<open>str\<close>), converts three fields of each row with
  \<open>float\<close> and \<open>int\<close>, adds them up per (table, prefix), sorts and formats. Python's
  \<open>int\<close> is unbounded and is modelled by \<open>int\<close>. Python's \<open>float\<close> is an IEEE-754
  binary64 value: a finite value is carried as the rational number it denotes, negative
  zero, the two infinities and NaN are constructors of their own. \<open>Fin 0\<close> is positive
  zero. Strings are ASCII.
\<close>

datatype pyfloat = Fin rat | NegZero | PInf | NInf | NaN

datatype py_error = ValueError | OverflowError

subsection \<open>Rounding to binary64\<close>

definition pow2 :: "int \<Rightarrow> rat" where
  "pow2 e = (if 0 \<le> e then 2 ^ nat e else 1 / 2 ^ nat (- e))"

definition round_half_even :: "rat \<Rightarrow> int" where
  "round_half_even q =
     (let f = \<lfloor>q\<rfloor>; d = q - of_int f
      in if d < 1 / 2 then f else if 1 / 2 < d then f + 1
         else if even f then f else f + 1)"

text \<open>\<open>ilog2 q\<close> is \<open>\<lfloor>log\<^sub>2 q\<rfloor>\<close> for a positive rational \<open>q\<close>.\<close>

definition ilog2 :: "rat \<Rightarrow> int" where
  "ilog2 q =
     (let (a, b) = quotient_of q; e = bitlen a - bitlen b
      in if pow2 e \<le> q then e else e - 1)"

text \<open>
  Round to nearest, ties to even, with 53 bits of precision, gradual underflow below
  \<open>2\<^sup>-\<^sup>1\<^sup>0\<^sup>2\<^sup>2\<close> and overflow to an infinity when the rounded value reaches
  \<open>2\<^sup>1\<^sup>0\<^sup>2\<^sup>4\<close> (its exponent \<open>ilog2 \<bar>r\<bar>\<close> is above 1023). A result that rounds to
  zero keeps the sign of the exact value.
\<close>

definition round_double :: "rat \<Rightarrow> pyfloat" where
  "round_double q =
     (if q = 0 then Fin 0
      else let e = max (ilog2 \<bar>q\<bar>) (- 1022);
               ulp = pow2 (e - 52);
               r = of_int (round_half_even (q / ulp)) * ulp
           in if r = 0 then (if 0 < q then Fin 0 else NegZero)
              else if 1024 \<le> ilog2 \<bar>r\<bar> then (if 0 < q then PInf else NInf)
              else Fin r)"

subsection \<open>Float arithmetic and comparison\<close>

text \<open>\<open>x + y\<close> on floats. An exact sum of zero is positive zero unless both are \<open>-0.0\<close>.\<close>

fun fadd :: "pyfloat \<Rightarrow> pyfloat \<Rightarrow> pyfloat" where
  "fadd NaN _ = NaN"
| "fadd _ NaN = NaN"
| "fadd PInf NInf = NaN"
| "fadd NInf PInf = NaN"
| "fadd PInf _ = PInf"
| "fadd _ PInf = PInf"
| "fadd NInf _ = NInf"
| "fadd _ NInf = NInf"
| "fadd NegZero NegZero = NegZero"
| "fadd NegZero (Fin b) = (if b = 0 then Fin 0 else round_double b)"
| "fadd (Fin a) NegZero = (if a = 0 then Fin 0 else round_double a)"
| "fadd (Fin a) (Fin b) = (if a + b = 0 then Fin 0 else round_double (a + b))"

fun fneg :: "pyfloat \<Rightarrow> pyfloat" where
  "fneg NaN = NaN"
| "fneg PInf = NInf"
| "fneg NInf = PInf"
| "fneg NegZero = Fin 0"
| "fneg (Fin a) = (if a = 0 then NegZero else Fin (- a))"

definition fsub :: "pyfloat \<Rightarrow> pyfloat \<Rightarrow> pyfloat" where
  "fsub x y = fadd x (fneg y)"

fun fabs :: "pyfloat \<Rightarrow> pyfloat" where
  "fabs NaN = NaN"
| "fabs PInf = PInf"
| "fabs NInf = PInf"
| "fabs NegZero = Fin 0"
| "fabs (Fin a) = Fin \<bar>a\<bar>"

text \<open>\<open>x < y\<close> on floats: false as soon as one side is NaN; the zeros are equal.\<close>

fun flt :: "pyfloat \<Rightarrow> pyfloat \<Rightarrow> bool" where
  "flt NaN _ = False"
| "flt _ NaN = False"
| "flt PInf _ = False"
| "flt _ PInf = True"
| "flt _ NInf = False"
| "flt NInf _ = True"
| "flt NegZero NegZero = False"
| "flt NegZero (Fin b) = (0 < b)"
| "flt (Fin a) NegZero = (a < 0)"
| "flt (Fin a) (Fin b) = (a < b)"

text \<open>\<open>x >= y\<close> on floats: false as soon as one side is NaN.\<close>

definition fge :: "pyfloat \<Rightarrow> pyfloat \<Rightarrow> bool" where
  "fge x y = (x \<noteq> NaN \<and> y \<noteq> NaN \<and> \<not> flt x y)"

definition fle :: "pyfloat \<Rightarrow> pyfloat \<Rightarrow> bool" where
  "fle x y = fge y x"

text \<open>Division of a float by a positive finite float \<open>d\<close> (here always \<open>1024 ** 3\<close>).\<close>

fun fdiv_pos :: "pyfloat \<Rightarrow> rat \<Rightarrow> pyfloat" where
  "fdiv_pos NaN d = NaN"
| "fdiv_pos PInf d = PInf"
| "fdiv_pos NInf d = NInf"
| "fdiv_pos NegZero d = NegZero"
| "fdiv_pos (Fin a) d = (if a = 0 then Fin 0 else round_double (a / d))"

subsection \<open>The built-in conversions \<open>float(str)\<close>, \<open>int(float)\<close> and \<open>float(int)\<close>\<close>

definition is_digit :: "char \<Rightarrow> bool" where
  "is_digit c = (48 \<le> (of_char c :: int) \<and> (of_char c :: int) \<le> 57)"

definition digit_val :: "char \<Rightarrow> int" where
  "digit_val c = of_char c - 48"

definition is_space :: "char \<Rightarrow> bool" where
  "is_space c = ((of_char c :: int) \<in> {9, 10, 11, 12, 13, 28, 29, 30, 31, 32})"

definition to_lower :: "char \<Rightarrow> char" where
  "to_lower c =
     (if 65 \<le> (of_char c :: int) \<and> (of_char c :: int) \<le> 90
      then char_of ((of_char c :: int) + 32) else c)"

definition int_of_digits :: "string \<Rightarrow> int" where
  "int_of_digits ds = foldl (\<lambda>n c. 10 * n + digit_val c) 0 ds"

text \<open>
  An underscore is accepted only between two digits; accepted underscores are dropped
  before the number is read. \<open>prev\<close> is the character before, initially NUL.
\<close>

fun strip_underscores :: "char \<Rightarrow> string \<Rightarrow> string option" where
  "strip_underscores prev [] = (if prev = CHR ''_'' then None else Some [])"
| "strip_underscores prev (c # cs) =
     (if c = CHR ''_''
      then (if is_digit prev then strip_underscores c cs else None)
      else if prev = CHR ''_'' \<and> \<not> is_digit c then None
      else map_option ((#) c) (strip_underscores c cs))"

definition strip :: "string \<Rightarrow> string" where
  "strip s = rev (dropWhile is_space (rev (dropWhile is_space s)))"

definition split_sign :: "string \<Rightarrow> bool \<times> string" where
  "split_sign s =
     (case s of
        [] \<Rightarrow> (False, [])
      | c # cs \<Rightarrow>
          if c = CHR ''-'' then (True, cs)
          else if c = CHR ''+'' then (False, cs)
          else (False, s))"

text \<open>The exponent part: empty, or \<open>e\<close>/\<open>E\<close>, an optional sign and at least one digit.\<close>

definition parse_exponent :: "string \<Rightarrow> int option" where
  "parse_exponent s =
     (case s of
        [] \<Rightarrow> Some 0
      | c # cs \<Rightarrow>
          if c = CHR ''e'' \<or> c = CHR ''E''
          then (let (neg, ds) = split_sign cs
                in if ds \<noteq> [] \<and> list_all is_digit ds
                   then Some (if neg then - int_of_digits ds else int_of_digits ds)
                   else None)
          else None)"

text \<open>The value \<open>m * 10\<^sup>e\<close> as a rational.\<close>

definition scale10 :: "int \<Rightarrow> int \<Rightarrow> rat" where
  "scale10 m e =
     (if 0 \<le> e then of_int (m * 10 ^ nat e)
      else of_int m / of_int (10 ^ nat (- e)))"

text \<open>
  An unsigned decimal: digits, an optional point and digits (at least one digit in
  all), an optional exponent. The result is the exact value, to be rounded.
\<close>

definition parse_decimal :: "string \<Rightarrow> rat option" where
  "parse_decimal s =
     (let ds1 = takeWhile is_digit s;
          r1 = dropWhile is_digit s;
          (ds2, r2) =
            (case r1 of
               [] \<Rightarrow> ([], [])
             | c # cs \<Rightarrow>
                 if c = CHR ''.'' then (takeWhile is_digit cs, dropWhile is_digit cs)
                 else ([], r1))
      in if ds1 = [] \<and> ds2 = [] then None
         else (case parse_exponent r2 of
                 None \<Rightarrow> None
               | Some e \<Rightarrow> Some (scale10 (int_of_digits (ds1 @ ds2)) (e - int (length ds2)))))"

text \<open>
  \<open>float(s)\<close> for a string \<open>s\<close>: surrounding whitespace is ignored, then a sign and one
  of \<open>inf\<close>, \<open>infinity\<close>, \<open>nan\<close> (in any case) or a decimal, rounded to the nearest
  double. Anything else raises \<open>ValueError\<close>.
\<close>

definition py_float :: "string \<Rightarrow> py_error + pyfloat" where
  "py_float s =
     (case strip_underscores (CHR 0x00) s of
        None \<Rightarrow> Inl ValueError
      | Some t \<Rightarrow>
          (let (neg, body) = split_sign (strip t); low = map to_lower body
           in if low = ''inf'' \<or> low = ''infinity'' then Inr (if neg then NInf else PInf)
              else if low = ''nan'' then Inr NaN
              else (case parse_decimal body of
                      None \<Rightarrow> Inl ValueError
                    | Some q \<Rightarrow>
                        if q = 0 then Inr (if neg then NegZero else Fin 0)
                        else Inr (round_double (if neg then - q else q)))))"

text \<open>\<open>int(x)\<close> for a float \<open>x\<close>: truncation toward zero; NaN and the infinities raise.\<close>

fun py_int_of_float :: "pyfloat \<Rightarrow> py_error + int" where
  "py_int_of_float NaN = Inl ValueError"
| "py_int_of_float PInf = Inl OverflowError"
| "py_int_of_float NInf = Inl OverflowError"
| "py_int_of_float NegZero = Inr 0"
| "py_int_of_float (Fin a) = Inr (if 0 \<le> a then \<lfloor>a\<rfloor> else \<lceil>a\<rceil>)"

text \<open>\<open>float(n)\<close> for an int \<open>n\<close>: the nearest double, \<open>OverflowError\<close> beyond the range.\<close>

definition py_float_of_int :: "int \<Rightarrow> py_error + pyfloat" where
  "py_float_of_int n =
     (case round_double (of_int n) of
        PInf \<Rightarrow> Inl OverflowError
      | NInf \<Rightarrow> Inl OverflowError
      | x \<Rightarrow> Inr x)"

subsection \<open>The format specification \<open>.6f\<close>\<close>

definition digit_char :: "int \<Rightarrow> char" where
  "digit_char d = char_of (48 + d)"

text \<open>The decimal digits of a non-negative integer, as \<open>str\<close> prints them.\<close>

function digits_of :: "int \<Rightarrow> string" where
  "digits_of n =
     (if n < 10 then [digit_char n] else digits_of (n div 10) @ [digit_char (n mod 10)])"
  by pat_completeness auto
termination
  by (relation "measure nat") auto

declare digits_of.simps [simp del]

definition pad6 :: "int \<Rightarrow> string" where
  "pad6 m = (let s = digits_of m in replicate (6 - length s) (CHR ''0'') @ s)"

text \<open>
  \<open>f"{x:.6f}"\<close>: the exact value rounded (ties to even) to six decimals, with the sign
  of \<open>x\<close>; \<open>nan\<close>, \<open>inf\<close> and \<open>-inf\<close> for the special values.
\<close>

fun format_6f :: "pyfloat \<Rightarrow> string" where
  "format_6f NaN = ''nan''"
| "format_6f PInf = ''inf''"
| "format_6f NInf = ''-inf''"
| "format_6f NegZero = ''-0.000000''"
| "format_6f (Fin a) =
     (let n = round_half_even (\<bar>a\<bar> * 1000000)
      in (if a < 0 then ''-'' else '''') @ digits_of (n div 1000000) @ ''.'' @
         pad6 (n mod 1000000))"

section \<open>Helpers of the module\<close>

text \<open>
  \<^verbatim>\<open>
  def float_or_zero(val):
      try: return float(val)
      except Exception: return 0.0

  def int_or_zero(val):
      try: return int(float(val))
      except Exception: return 0

  def bytes_to_gb(num_bytes):
      return float(num_bytes) / (1024 ** 3)
  \<close>
\<close>

definition float_or_zero :: "string \<Rightarrow> pyfloat" where
  "float_or_zero val = (case py_float val of Inl _ \<Rightarrow> Fin 0 | Inr x \<Rightarrow> x)"

definition int_or_zero :: "string \<Rightarrow> int" where
  "int_or_zero val =
     (case py_float val of
        Inl _ \<Rightarrow> 0
      | Inr x \<Rightarrow> (case py_int_of_float x of Inl _ \<Rightarrow> 0 | Inr n \<Rightarrow> n))"

definition bytes_to_gb :: "int \<Rightarrow> py_error + pyfloat" where
  "bytes_to_gb num_bytes =
     (case py_float_of_int num_bytes of
        Inl e \<Rightarrow> Inl e
      | Inr x \<Rightarrow> Inr (fdiv_pos x (1024 ^ 3)))"

section \<open>The data of \<open>lambda_handler\<close>\<close>

text \<open>
  One dict of the \<open>breakdown\<close> list. The field \<open>entry_size_bytes\<close> is the key
  \<open>"total_size_bytes"\<close> of that dict (the accumulator has a key of the same name).
\<close>

record breakdown_entry =
  storage_class :: string
  intelligent_tiering_access_tier :: string
  object_count :: int
  entry_size_bytes :: int
  estimated_cost_usd :: pyfloat

text \<open>The value stored in \<open>prefixes\<close> under the key \<open>(table, prefix)\<close>.\<close>

record prefix_data =
  table :: string
  prefix :: string
  total_size_bytes :: int
  total_objects :: int
  total_cost_usd :: pyfloat
  breakdown :: "breakdown_entry list"

text \<open>
  \<open>prefixes\<close> is a Python dict, which keeps its keys in insertion order: an association
  list with one pair per key, a new key going to the end.
\<close>

type_synonym prefixes = "((string \<times> string) \<times> prefix_data) list"

text \<open>The local variables of the loop body after lines 219 to 224: one parsed row.\<close>

record measurement =
  m_prefix :: string
  m_storage_class :: string
  m_itt :: string
  m_object_count :: int
  m_total_size :: int
  m_estimated_cost :: pyfloat

datatype cell = CInt int | CStr string

section \<open>Reading and aggregating the rows (lines 216 to 246)\<close>

text \<open>
  \<^verbatim>\<open>
  if not row or len(row) < 6: continue
  prefix = row[0] or "(empty)"
  storage_class = row[1] or "UNKNOWN"
  itt = row[2] or ""
  object_count = int_or_zero(row[3])
  total_size = int_or_zero(row[4])
  estimated_cost = float_or_zero(row[5])
  \<close>
  \<open>None\<close> is the \<open>continue\<close>.
\<close>

definition normalize_row :: "string list \<Rightarrow> measurement option" where
  "normalize_row row =
     (if row = [] \<or> length row < 6 then None
      else Some \<lparr>
        m_prefix = (if row ! 0 = [] then ''(empty)'' else row ! 0),
        m_storage_class = (if row ! 1 = [] then ''UNKNOWN'' else row ! 1),
        m_itt = (if row ! 2 = [] then [] else row ! 2),
        m_object_count = int_or_zero (row ! 3),
        m_total_size = int_or_zero (row ! 4),
        m_estimated_cost = float_or_zero (row ! 5) \<rparr>)"

definition new_prefix_data :: "string \<Rightarrow> string \<Rightarrow> prefix_data" where
  "new_prefix_data t p =
     \<lparr> table = t, prefix = p, total_size_bytes = 0, total_objects = 0,
       total_cost_usd = Fin 0, breakdown = [] \<rparr>"

definition entry_of :: "measurement \<Rightarrow> breakdown_entry" where
  "entry_of m =
     \<lparr> storage_class = m_storage_class m,
       intelligent_tiering_access_tier = m_itt m,
       object_count = m_object_count m,
       entry_size_bytes = m_total_size m,
       estimated_cost_usd = m_estimated_cost m \<rparr>"

text \<open>The four statements of lines 237 to 246 on the dict stored under the key.\<close>

definition bump :: "measurement \<Rightarrow> prefix_data \<Rightarrow> prefix_data" where
  "bump m d =
     d \<lparr> total_size_bytes := total_size_bytes d + m_total_size m,
         total_objects := total_objects d + m_object_count m,
         total_cost_usd := fadd (total_cost_usd d) (m_estimated_cost m),
         breakdown := breakdown d @ [entry_of m] \<rparr>"

text \<open>Lines 226 to 246: create the entry when the key is new, then update it in place.\<close>

definition add_measurement :: "string \<Rightarrow> measurement \<Rightarrow> prefixes \<Rightarrow> prefixes" where
  "add_measurement t m prefixes =
     (let key = (t, m_prefix m);
          prefixes1 =
            (case map_of prefixes key of
               None \<Rightarrow> AList.update key (new_prefix_data t (m_prefix m)) prefixes
             | Some _ \<Rightarrow> prefixes)
      in AList.map_entry key (bump m) prefixes1)"

definition process_row :: "string \<Rightarrow> string list \<Rightarrow> prefixes \<Rightarrow> prefixes" where
  "process_row t row prefixes =
     (case normalize_row row of
        None \<Rightarrow> prefixes
      | Some m \<Rightarrow> add_measurement t m prefixes)"

text \<open>The loop \<open>for row in reader\<close> over the rows after the header, for one table.\<close>

definition aggregate_rows :: "string \<Rightarrow> string list list \<Rightarrow> prefixes \<Rightarrow> prefixes" where
  "aggregate_rows t rows prefixes = foldl (\<lambda>ps row. process_row t row ps) prefixes rows"

text \<open>
  The loop over the tables whose query succeeded, each with the rows of its CSV result;
  \<open>next(reader, None)\<close> takes the header row away first.
\<close>

definition aggregate :: "(string \<times> string list list) list \<Rightarrow> prefixes" where
  "aggregate results =
     foldl (\<lambda>ps (t, csv_rows). aggregate_rows t (drop 1 csv_rows) ps) [] results"

section \<open>Ranking (lines 248 to 252)\<close>

text \<open>
  \<open>sorted(xs, key=key, reverse=True)\<close> with float keys. Python's sort compares with \<open><\<close>
  only and is stable, also with \<open>reverse=True\<close>: entries with equal keys keep their
  order. The model is the stable insertion sort; every stable sort gives the same list
  when \<open><\<close> orders the keys totally, which it does unless a key is NaN.
\<close>

fun insert_desc :: "('a \<Rightarrow> pyfloat) \<Rightarrow> 'a \<Rightarrow> 'a list \<Rightarrow> 'a list" where
  "insert_desc key x [] = [x]"
| "insert_desc key x (y # ys) =
     (if flt (key x) (key y) then y # insert_desc key x ys else x # y # ys)"

definition sorted_reverse :: "('a \<Rightarrow> pyfloat) \<Rightarrow> 'a list \<Rightarrow> 'a list" where
  "sorted_reverse key xs = foldr (insert_desc key) xs []"

text \<open>The slice \<open>xs[:n]\<close>: a negative \<open>n\<close> counts from the end.\<close>

definition slice_to :: "int \<Rightarrow> 'a list \<Rightarrow> 'a list" where
  "slice_to n xs =
     (if 0 \<le> n then take (nat n) xs else take (nat (int (length xs) + n)) xs)"

type_synonym ranked = "string \<times> string \<times> pyfloat \<times> prefix_data"

definition all_prefixes :: "prefixes \<Rightarrow> ranked list" where
  "all_prefixes prefixes =
     map (\<lambda>(key, data). (fst key, snd key, total_cost_usd data, data)) prefixes"

definition top_prefixes :: "int \<Rightarrow> prefixes \<Rightarrow> ranked list" where
  "top_prefixes top_n prefixes =
     slice_to top_n (sorted_reverse (\<lambda>x. fst (snd (snd x))) (all_prefixes prefixes))"

section \<open>The report rows (lines 254 to 304)\<close>

definition summary_row :: "int \<Rightarrow> string \<Rightarrow> string \<Rightarrow> prefix_data \<Rightarrow> pyfloat \<Rightarrow> cell list" where
  "summary_row rank table_name prefix_name data total_size_gb =
     [CInt rank, CStr table_name, CStr prefix_name,
      CStr (format_6f (total_cost_usd data)), CStr (format_6f total_size_gb),
      CInt (total_objects data),
      CStr [], CStr [], CStr [], CStr [], CStr []]"

definition breakdown_row :: "int \<Rightarrow> string \<Rightarrow> string \<Rightarrow> breakdown_entry \<Rightarrow> pyfloat \<Rightarrow> cell list" where
  "breakdown_row rank table_name prefix_name b size_gb =
     [CInt rank, CStr table_name, CStr prefix_name,
      CStr [], CStr [], CStr [],
      CStr (storage_class b), CStr (intelligent_tiering_access_tier b),
      CInt (object_count b),
      CStr (format_6f size_gb), CStr (format_6f (estimated_cost_usd b))]"

text \<open>The inner loop over the sorted breakdown; an exception of \<open>bytes_to_gb\<close> ends it.\<close>

fun breakdown_rows ::
  "int \<Rightarrow> string \<Rightarrow> string \<Rightarrow> breakdown_entry list \<Rightarrow> py_error + cell list list" where
  "breakdown_rows rank table_name prefix_name [] = Inr []"
| "breakdown_rows rank table_name prefix_name (b # bs) =
     (case bytes_to_gb (entry_size_bytes b) of
        Inl e \<Rightarrow> Inl e
      | Inr size_gb \<Rightarrow>
          (case breakdown_rows rank table_name prefix_name bs of
             Inl e \<Rightarrow> Inl e
           | Inr rows \<Rightarrow> Inr (breakdown_row rank table_name prefix_name b size_gb # rows)))"

text \<open>The body of the outer loop for one entry of \<open>top_prefixes\<close>.\<close>

definition render_prefix :: "int \<Rightarrow> ranked \<Rightarrow> py_error + cell list list" where
  "render_prefix rank x =
     (case x of (table_name, prefix_name, total_cost, data) \<Rightarrow>
        (case bytes_to_gb (total_size_bytes data) of
           Inl e \<Rightarrow> Inl e
         | Inr total_size_gb \<Rightarrow>
             (case breakdown_rows rank table_name prefix_name
                     (sorted_reverse estimated_cost_usd (breakdown data)) of
                Inl e \<Rightarrow> Inl e
              | Inr rows \<Rightarrow>
                  Inr (summary_row rank table_name prefix_name data total_size_gb # rows))))"

fun report_rows_from :: "int \<Rightarrow> ranked list \<Rightarrow> py_error + cell list list" where
  "report_rows_from rank [] = Inr []"
| "report_rows_from rank (x # xs) =
     (case render_prefix rank x of
        Inl e \<Rightarrow> Inl e
      | Inr rows \<Rightarrow>
          (case report_rows_from (rank + 1) xs of
             Inl e \<Rightarrow> Inl e
           | Inr rest \<Rightarrow> Inr (rows @ rest)))"

definition report_rows :: "int \<Rightarrow> prefixes \<Rightarrow> py_error + cell list list" where
  "report_rows top_n prefixes = report_rows_from 1 (top_prefixes top_n prefixes)"

section \<open>The properties, in the program's terms\<close>

text \<open>\<open>math.isfinite(x)\<close>.\<close>

definition is_finite :: "pyfloat \<Rightarrow> bool" where
  "is_finite x = (x \<noteq> NaN \<and> x \<noteq> PInf \<and> x \<noteq> NInf)"

text \<open>
  The values of type \<open>pyfloat\<close> that are doubles: a finite one is its own rounding.
  Every float the interpreter holds is one.
\<close>

definition is_double :: "pyfloat \<Rightarrow> bool" where
  "is_double x = (case x of Fin q \<Rightarrow> q = 0 \<or> round_double q = Fin q | _ \<Rightarrow> True)"

text \<open>
  The sum of a list of floats as the loop and as \<open>sum\<close> compute it: from zero, left to
  right, each addition rounded.
\<close>

definition float_sum :: "pyfloat list \<Rightarrow> pyfloat" where
  "float_sum cs = foldl fadd (Fin 0) cs"

text \<open>The test \<open>abs(x - y) <= 1e-9\<close>.\<close>

definition within_tolerance :: "pyfloat \<Rightarrow> pyfloat \<Rightarrow> bool" where
  "within_tolerance x y = fle (fabs (fsub x y)) (round_double (1 / 1000000000))"

text \<open>The totals of an accumulator agree with its breakdown list and its key.\<close>

definition acc_ok :: "(string \<times> string) \<times> prefix_data \<Rightarrow> bool" where
  "acc_ok kd =
     (case kd of (key, d) \<Rightarrow>
        table d = fst key \<and> prefix d = snd key \<and>
        total_size_bytes d = sum_list (map entry_size_bytes (breakdown d)) \<and>
        total_objects d = sum_list (map object_count (breakdown d)) \<and>
        total_cost_usd d = float_sum (map estimated_cost_usd (breakdown d)))"

text \<open>The tier of a breakdown entry: storage class and access tier.\<close>

definition tier_key :: "breakdown_entry \<Rightarrow> string \<times> string" where
  "tier_key b = (storage_class b, intelligent_tiering_access_tier b)"

text \<open>A decimal text with exactly six digits after the point: \<open>-?[0-9]+\.[0-9]{6}\<close>.\<close>

definition six_decimals :: "string \<Rightarrow> bool" where
  "six_decimals s =
     (let body = (case s of [] \<Rightarrow> [] | c # cs \<Rightarrow> if c = CHR ''-'' then cs else s);
          ip = takeWhile is_digit body;
          rest = dropWhile is_digit body
      in ip \<noteq> [] \<and>
         (case rest of
            [] \<Rightarrow> False
          | c # fp \<Rightarrow> c = CHR ''.'' \<and> length fp = 6 \<and> list_all is_digit fp))"

text \<open>
  A text that \<open>int\<close> reads as an integer: an optional sign and digits (underscores
  between digits allowed), with whitespace around.
\<close>

definition is_int_literal :: "string \<Rightarrow> bool" where
  "is_int_literal s =
     (case strip_underscores (CHR 0x00) s of
        None \<Rightarrow> False
      | Some t \<Rightarrow>
          (let (neg, body) = split_sign (strip t)
           in body \<noteq> [] \<and> list_all is_digit body))"

text \<open>The third component of an entry of \<open>top_prefixes\<close>, the key of the sort.\<close>

definition ranked_cost :: "ranked \<Rightarrow> pyfloat" where
  "ranked_cost x = fst (snd (snd x))"

section \<open>Evaluation\<close>

text \<open>Powers of two by repeated squaring, for evaluation.\<close>

lemma pow2_code [code]:
  "pow2 e =
     (if e = 0 then 1
      else if e < 0 then 1 / pow2 (- e)
      else let h = pow2 (e div 2) in if even e then h * h else 2 * h * h)"
proof -
  have ev: "(2::rat) ^ nat e = 2 ^ nat (e div 2) * 2 ^ nat (e div 2)" if "0 < e" "even e"
  proof -
    from that have "nat e = nat (e div 2) + nat (e div 2)" by (auto elim!: evenE)
    then show ?thesis by (metis power_add)
  qed
  have od: "(2::rat) ^ nat e = 2 * 2 ^ nat (e div 2) * 2 ^ nat (e div 2)" if "0 < e" "odd e"
  proof -
    from that have "nat e = Suc (nat (e div 2) + nat (e div 2))" by (auto elim!: oddE)
    then show ?thesis by (metis power_Suc power_add mult.assoc)
  qed
  show ?thesis
    using ev od by (auto simp: pow2_def Let_def)
qed


section \<open>Sorting and slicing\<close>

lemma length_insert_desc: "length (insert_desc key x ys) = Suc (length ys)"
  by (induction ys) auto

lemma mset_insert_desc: "mset (insert_desc key x ys) = add_mset x (mset ys)"
  by (induction ys) auto

lemma length_sorted_reverse: "length (sorted_reverse key xs) = length xs"
  by (induction xs) (auto simp: sorted_reverse_def length_insert_desc)

lemma mset_sorted_reverse: "mset (sorted_reverse key xs) = mset xs"
  by (induction xs) (auto simp: sorted_reverse_def mset_insert_desc)

lemma set_sorted_reverse: "set (sorted_reverse key xs) = set xs"
  using mset_sorted_reverse [of key xs] by (metis set_mset_mset)

lemma set_insert_desc: "set (insert_desc key x ys) = insert x (set ys)"
  using mset_insert_desc [of key x ys] by (metis set_mset_mset set_mset_add_mset_insert)

lemma flt_asym: "flt x y \<Longrightarrow> \<not> flt y x"
  by (cases x; cases y) auto

lemma fge_trans: "fge x y \<Longrightarrow> fge y z \<Longrightarrow> fge x z"
  unfolding fge_def by (cases x; cases y; cases z) auto

lemma sorted_insert_desc:
  assumes "key x \<noteq> NaN" "\<forall>y\<in>set ys. key y \<noteq> NaN"
    and "sorted_wrt (\<lambda>a b. fge (key a) (key b)) ys"
  shows "sorted_wrt (\<lambda>a b. fge (key a) (key b)) (insert_desc key x ys)"
  using assms
proof (induction ys)
  case Nil
  then show ?case by simp
next
  case (Cons y ys)
  show ?case
  proof (cases "flt (key x) (key y)")
    case True
    then have "fge (key y) (key x)"
      using Cons.prems by (simp add: fge_def flt_asym)
    with True Cons show ?thesis
      by (auto simp: set_insert_desc)
  next
    case False
    then have xy: "fge (key x) (key y)"
      using Cons.prems by (simp add: fge_def)
    have "fge (key x) (key z)" if "z \<in> set ys" for z
      using xy Cons.prems(3) that fge_trans by fastforce
    with False xy Cons.prems show ?thesis by auto
  qed
qed

lemma sorted_sorted_reverse:
  "\<forall>x\<in>set xs. key x \<noteq> NaN \<Longrightarrow>
   sorted_wrt (\<lambda>a b. fge (key a) (key b)) (sorted_reverse key xs)"
proof (induction xs)
  case Nil
  then show ?case by (simp add: sorted_reverse_def)
next
  case (Cons x xs)
  have "sorted_wrt (\<lambda>a b. fge (key a) (key b)) (insert_desc key x (sorted_reverse key xs))"
    using Cons by (intro sorted_insert_desc) (auto simp: set_sorted_reverse)
  then show ?case by (simp add: sorted_reverse_def)
qed

lemma length_slice_to:
  "0 \<le> n \<Longrightarrow> length (slice_to n xs) = min (nat n) (length xs)"
  by (simp add: slice_to_def)

lemma sorted_wrt_slice_to: "sorted_wrt P xs \<Longrightarrow> sorted_wrt P (slice_to n xs)"
  by (simp add: slice_to_def sorted_wrt_take)

lemma length_all_prefixes: "length (all_prefixes prefixes) = length prefixes"
  by (simp add: all_prefixes_def)

lemma ranked_cost_all_prefixes:
  "x \<in> set (all_prefixes prefixes) \<Longrightarrow>
   \<exists>kd\<in>set prefixes. x = (fst (fst kd), snd (fst kd), total_cost_usd (snd kd), snd kd)"
  by (force simp: all_prefixes_def)

section \<open>Rounding to a double\<close>

lemma pow2_powi: "pow2 e = 2 powi e"
  by (simp add: pow2_def power_int_def inverse_eq_divide power_one_over)

lemma pow2_pos: "0 < pow2 e"
  by (simp add: pow2_powi)

lemma pow2_add: "pow2 (a + b) = pow2 a * pow2 b"
  by (simp add: pow2_powi power_int_add)

lemma pow2_mono: "a \<le> b \<Longrightarrow> pow2 a \<le> pow2 b"
  by (simp add: pow2_powi power_int_increasing)

lemma pow2_strict_mono: "a < b \<Longrightarrow> pow2 a < pow2 b"
  by (simp add: pow2_powi power_int_strict_increasing)

lemma pow2_less_iff: "pow2 a < pow2 b \<longleftrightarrow> a < b"
  using pow2_strict_mono [of a b] pow2_mono [of b a] by (cases "a < b") auto

lemma pow2_le_iff: "pow2 a \<le> pow2 b \<longleftrightarrow> a \<le> b"
  using pow2_strict_mono [of b a] pow2_mono [of a b] by (cases "a \<le> b") auto

lemma pow2_nat: "0 \<le> e \<Longrightarrow> pow2 e = of_int (2 ^ nat e)"
  by (simp add: pow2_def)

lemma pow2_Suc: "pow2 (e + 1) = 2 * pow2 e"
  by (subst pow2_add) (simp add: pow2_def)

lemma ilog2_bounds:
  assumes "0 < q"
  shows "pow2 (ilog2 q) \<le> q \<and> q < pow2 (ilog2 q + 1)"
proof -
  obtain a b where ab: "quotient_of q = (a, b)" by (cases "quotient_of q")
  then have q: "q = of_int a / of_int b" and b: "0 < b"
    by (simp_all add: quotient_of_div quotient_of_denom_pos)
  from assms q b have a: "0 < a"
    by (simp add: zero_less_divide_iff)
  define la lb where "la = bitlen a" and "lb = bitlen b"
  have la: "1 \<le> la" and lb: "1 \<le> lb"
    using a b bitlen_eq_zero_iff [of a] bitlen_eq_zero_iff [of b] bitlen_nonneg [of a] bitlen_nonneg [of b]
    by (auto simp: la_def lb_def)
  have A: "pow2 (la - 1) \<le> of_int a" "of_int a < pow2 la"
  proof -
    have "(of_int (2 ^ nat (la - 1)) :: rat) \<le> of_int a"
      using bitlen_bounds [OF a] unfolding la_def of_int_le_iff by blast
    then show "pow2 (la - 1) \<le> of_int a"
      using la by (simp only: pow2_nat)
    have "(of_int a :: rat) < of_int (2 ^ nat la)"
      using bitlen_bounds [OF a] unfolding la_def of_int_less_iff by blast
    then show "of_int a < pow2 la"
      using la by (simp only: pow2_nat)
  qed
  have B: "pow2 (lb - 1) \<le> of_int b" "of_int b < pow2 lb"
  proof -
    have "(of_int (2 ^ nat (lb - 1)) :: rat) \<le> of_int b"
      using bitlen_bounds [OF b] unfolding lb_def of_int_le_iff by blast
    then show "pow2 (lb - 1) \<le> of_int b"
      using lb by (simp only: pow2_nat)
    have "(of_int b :: rat) < of_int (2 ^ nat lb)"
      using bitlen_bounds [OF b] unfolding lb_def of_int_less_iff by blast
    then show "of_int b < pow2 lb"
      using lb by (simp only: pow2_nat)
  qed
  have bpos: "(0::rat) < of_int b" using b by simp
  have up: "q < pow2 (la - lb + 1)"
  proof -
    have "of_int a < pow2 la" by (rule A)
    also have "pow2 la = pow2 (la - lb + 1) * pow2 (lb - 1)"
      by (simp add: pow2_add [symmetric])
    also have "\<dots> \<le> pow2 (la - lb + 1) * of_int b"
      using B(1) pow2_pos [of "la - lb + 1"] by (simp add: mult_left_mono)
    finally show ?thesis using bpos by (simp add: q pos_divide_less_eq)
  qed
  have lo: "pow2 (la - lb - 1) \<le> q"
  proof -
    have "pow2 (la - lb - 1) * of_int b \<le> pow2 (la - lb - 1) * pow2 lb"
      using B(2) pow2_pos [of "la - lb - 1"] by (simp add: mult_left_mono)
    also have "\<dots> = pow2 (la - 1)" by (simp add: pow2_add [symmetric])
    also have "\<dots> \<le> of_int a" by (rule A)
    finally show ?thesis using bpos by (simp add: q pos_le_divide_eq)
  qed
  show ?thesis
  proof (cases "pow2 (la - lb) \<le> q")
    case True
    then have "ilog2 q = la - lb" by (simp add: ilog2_def ab la_def lb_def)
    with True up show ?thesis by simp
  next
    case False
    then have "ilog2 q = la - lb - 1" by (simp add: ilog2_def ab la_def lb_def)
    with False lo show ?thesis by simp
  qed
qed

lemma ilog2_unique:
  assumes "pow2 k \<le> q" "q < pow2 (k + 1)"
  shows "ilog2 q = k"
proof -
  have q: "0 < q" using assms(1) pow2_pos [of k] by linarith
  from ilog2_bounds [OF q] assms
  have "pow2 (ilog2 q) < pow2 (k + 1)" "pow2 k < pow2 (ilog2 q + 1)"
    by linarith+
  then show ?thesis by (simp add: pow2_less_iff)
qed

lemma rhe_cases: "round_half_even x = \<lfloor>x\<rfloor> \<or> (round_half_even x = \<lfloor>x\<rfloor> + 1 \<and> of_int \<lfloor>x\<rfloor> < x)"
  by (auto simp: round_half_even_def Let_def)

lemma rhe_of_int: "round_half_even (of_int n) = n"
  by (simp add: round_half_even_def)

lemma rhe_le: "x \<le> of_int k \<Longrightarrow> round_half_even x \<le> k"
  using rhe_cases [of x] by (auto simp: floor_le_iff less_floor_iff)

lemma rhe_ge: "of_int k \<le> x \<Longrightarrow> k \<le> round_half_even x"
  using rhe_cases [of x] le_floor_iff [of k x] by auto

lemma rhe_abs_le: "\<bar>x\<bar> \<le> of_int k \<Longrightarrow> \<bar>round_half_even x\<bar> \<le> k"
proof -
  assume a: "\<bar>x\<bar> \<le> of_int k"
  then have "x \<le> of_int k" "of_int (- k) \<le> x" by (simp_all add: abs_le_iff)
  then have "round_half_even x \<le> k" "- k \<le> round_half_even x"
    using rhe_le rhe_ge by blast+
  then show ?thesis by linarith
qed

lemma rhe_abs_ge: "of_int k \<le> \<bar>x\<bar> \<Longrightarrow> 0 \<le> k \<Longrightarrow> k \<le> \<bar>round_half_even x\<bar>"
proof (cases "0 \<le> x")
  case True
  assume "of_int k \<le> \<bar>x\<bar>" "0 \<le> k"
  with True have "k \<le> round_half_even x" by (intro rhe_ge) simp
  then show ?thesis by linarith
next
  case False
  assume "of_int k \<le> \<bar>x\<bar>" "0 \<le> k"
  with False have "x \<le> of_int (- k)" by simp
  then have "round_half_even x \<le> - k" by (rule rhe_le)
  then show ?thesis by linarith
qed

lemma pow2_53: "pow2 53 = 9007199254740992" by (simp add: pow2_def)
lemma pow2_52: "pow2 52 = 4503599627370496" by (simp add: pow2_def)

lemma pow2_diff: "pow2 (a - b) = pow2 a / pow2 b"
proof -
  have "pow2 (a - b) * pow2 b = pow2 a" by (simp add: pow2_add [symmetric])
  then show ?thesis using pow2_pos [of b] by (simp add: field_simps)
qed

text \<open>The mantissa chosen by \<open>round_double\<close>.\<close>

lemma mantissa_bounds:
  assumes "q \<noteq> 0"
  defines "e \<equiv> max (ilog2 \<bar>q\<bar>) (- 1022)"
  defines "n \<equiv> round_half_even (q / pow2 (e - 52))"
  shows "\<bar>n\<bar> \<le> 9007199254740992"
    and "- 1022 \<le> ilog2 \<bar>q\<bar> \<Longrightarrow> 4503599627370496 \<le> \<bar>n\<bar>"
proof -
  have q: "0 < \<bar>q\<bar>" using assms(1) by simp
  have ulp: "0 < pow2 (e - 52)" by (rule pow2_pos)
  have "\<bar>q\<bar> < pow2 (ilog2 \<bar>q\<bar> + 1)" using ilog2_bounds [OF q] by simp
  also have "\<dots> \<le> pow2 (e + 1)" by (rule pow2_mono) (simp add: e_def)
  finally have "\<bar>q\<bar> / pow2 (e - 52) < pow2 (e + 1) / pow2 (e - 52)"
    using ulp by (simp add: divide_strict_right_mono)
  also have "\<dots> = pow2 53" by (simp add: pow2_diff [symmetric])
  finally have "\<bar>q / pow2 (e - 52)\<bar> \<le> of_int 9007199254740992"
    using ulp by (simp add: pow2_53 abs_divide)
  then show "\<bar>n\<bar> \<le> 9007199254740992"
    unfolding n_def by (rule rhe_abs_le)
next
  assume "- 1022 \<le> ilog2 \<bar>q\<bar>"
  then have e: "e = ilog2 \<bar>q\<bar>" by (simp add: e_def)
  have q: "0 < \<bar>q\<bar>" using assms(1) by simp
  have ulp: "0 < pow2 (e - 52)" by (rule pow2_pos)
  have "pow2 52 = pow2 e / pow2 (e - 52)" by (simp add: pow2_diff [symmetric])
  also have "\<dots> \<le> \<bar>q\<bar> / pow2 (e - 52)"
    using ilog2_bounds [OF q] ulp unfolding e by (simp add: divide_right_mono)
  finally have "of_int 4503599627370496 \<le> \<bar>q / pow2 (e - 52)\<bar>"
    using ulp by (simp add: pow2_52 abs_divide)
  then show "4503599627370496 \<le> \<bar>n\<bar>"
    unfolding n_def by (intro rhe_abs_ge) simp_all
qed

lemma round_double_unfold:
  assumes "q \<noteq> 0"
  defines "e \<equiv> max (ilog2 \<bar>q\<bar>) (- 1022)"
  defines "n \<equiv> round_half_even (q / pow2 (e - 52))"
  shows "round_double q =
     (if n = 0 then (if 0 < q then Fin 0 else NegZero)
      else if 1024 \<le> ilog2 \<bar>of_int n * pow2 (e - 52)\<bar> then (if 0 < q then PInf else NInf)
      else Fin (of_int n * pow2 (e - 52)))"
  using assms(1) pow2_pos [of "e - 52"]
  by (simp add: round_double_def Let_def e_def n_def)

lemma round_double_exact:
  assumes "r \<noteq> 0" and "r = of_int m * pow2 (max (ilog2 \<bar>r\<bar>) (- 1022) - 52)"
    and "ilog2 \<bar>r\<bar> < 1024"
  shows "round_double r = Fin r"
proof -
  define u where "u = pow2 (max (ilog2 \<bar>r\<bar>) (- 1022) - 52)"
  have u: "0 < u" unfolding u_def by (rule pow2_pos)
  have r: "r = of_int m * u" using assms(2) by (simp add: u_def)
  then have "r / u = of_int m" using u by simp
  then have n: "round_half_even (r / u) = m" by (simp add: rhe_of_int)
  have m: "m \<noteq> 0" using assms(1) r by auto
  show ?thesis
    using round_double_unfold [OF assms(1)] assms(3) m
    unfolding u_def [symmetric] n r [symmetric] by simp
qed

lemma abs_mantissa: "\<bar>of_int n * pow2 k\<bar> = of_int \<bar>n\<bar> * pow2 k"
  using pow2_pos [of k] by (simp add: abs_mult)

text \<open>Rounding is idempotent: a finite result of \<open>round_double\<close> is a double.\<close>

lemma round_double_idem:
  assumes "round_double q = Fin r"
  shows "r = 0 \<or> round_double r = Fin r"
proof (cases "q = 0 \<or> r = 0")
  case True
  then show ?thesis using assms by (auto simp: round_double_def)
next
  case False
  then have q: "q \<noteq> 0" and r0: "r \<noteq> 0" by auto
  define e where "e = max (ilog2 \<bar>q\<bar>) (- 1022)"
  define n where "n = round_half_even (q / pow2 (e - 52))"
  have unf: "round_double q =
     (if n = 0 then (if 0 < q then Fin 0 else NegZero)
      else if 1024 \<le> ilog2 \<bar>of_int n * pow2 (e - 52)\<bar> then (if 0 < q then PInf else NInf)
      else Fin (of_int n * pow2 (e - 52)))"
    unfolding e_def n_def by (rule round_double_unfold [OF q])
  have n0: "n \<noteq> 0" using unf assms r0 by (auto split: if_splits)
  have r: "r = of_int n * pow2 (e - 52)" and fin: "ilog2 \<bar>r\<bar> < 1024"
    using unf assms n0 by (auto split: if_splits)
  have nb: "\<bar>n\<bar> \<le> 9007199254740992"
    unfolding n_def e_def by (rule mantissa_bounds [OF q])
  have nl: "- 1022 \<le> ilog2 \<bar>q\<bar> \<Longrightarrow> 4503599627370496 \<le> \<bar>n\<bar>"
    unfolding n_def e_def by (rule mantissa_bounds [OF q])
  have e_ge: "- 1022 \<le> e" by (simp add: e_def)
  have absr: "\<bar>r\<bar> = of_int \<bar>n\<bar> * pow2 (e - 52)" unfolding r by (rule abs_mantissa)
  have u: "0 < pow2 (e - 52)" by (rule pow2_pos)
  consider (top) "\<bar>n\<bar> = 9007199254740992"
    | (normal) "4503599627370496 \<le> \<bar>n\<bar>" "\<bar>n\<bar> < 9007199254740992"
    | (sub) "\<bar>n\<bar> < 4503599627370496"
    using nb by linarith
  then show ?thesis
  proof cases
    case top
    have "\<bar>r\<bar> = pow2 53 * pow2 (e - 52)" unfolding absr top by (simp add: pow2_53)
    then have ar: "\<bar>r\<bar> = pow2 (e + 1)" by (simp add: pow2_add [symmetric] add.commute)
    have il: "ilog2 \<bar>r\<bar> = e + 1"
      by (rule ilog2_unique) (simp_all add: ar pow2_less_iff)
    have "pow2 (e + 1 - 52) = 2 * pow2 (e - 52)"
      using pow2_Suc [of "e - 52"] by (simp add: algebra_simps)
    moreover have "of_int n = 2 * (of_int (n div 2) :: rat)"
    proof -
      have "n = 9007199254740992 \<or> n = - 9007199254740992" using top by linarith
      then obtain k where k: "n = 2 * k" by auto
      then have "n div 2 = k" by simp
      with k show ?thesis by simp
    qed
    ultimately have r2: "r = of_int (n div 2) * pow2 (e + 1 - 52)"
      unfolding r by simp
    have mx: "max (ilog2 \<bar>r\<bar>) (- 1022) = e + 1"
      using il e_ge by simp
    have "r = of_int (n div 2) * pow2 (max (ilog2 \<bar>r\<bar>) (- 1022) - 52)"
      by (subst mx) (rule r2)
    from round_double_exact [OF r0 this fin] show ?thesis ..
  next
    case normal
    have "pow2 e = pow2 52 * pow2 (e - 52)" by (simp add: pow2_add [symmetric])
    also have "\<dots> \<le> \<bar>r\<bar>"
    proof -
      have "(of_int 4503599627370496 :: rat) \<le> of_int \<bar>n\<bar>"
        using normal(1) by (simp only: of_int_le_iff)
      then have "pow2 52 \<le> of_int \<bar>n\<bar>" by (simp add: pow2_52)
      then show ?thesis unfolding absr using u by (intro mult_right_mono) simp_all
    qed
    finally have lo: "pow2 e \<le> \<bar>r\<bar>" .
    have "\<bar>r\<bar> < pow2 53 * pow2 (e - 52)"
    proof -
      have "(of_int \<bar>n\<bar> :: rat) < of_int 9007199254740992"
        using normal(2) by (simp only: of_int_less_iff)
      then have "of_int \<bar>n\<bar> < pow2 53" by (simp add: pow2_53)
      then show ?thesis unfolding absr using u by (intro mult_strict_right_mono) simp_all
    qed
    also have "\<dots> = pow2 (e + 1)" by (simp add: pow2_add [symmetric] add.commute)
    finally have hi: "\<bar>r\<bar> < pow2 (e + 1)" .
    have il: "ilog2 \<bar>r\<bar> = e" using lo hi by (rule ilog2_unique)
    have mx: "max (ilog2 \<bar>r\<bar>) (- 1022) = e"
      using il e_ge by simp
    have "r = of_int n * pow2 (max (ilog2 \<bar>r\<bar>) (- 1022) - 52)"
      by (subst mx) (rule r)
    from round_double_exact [OF r0 this fin] show ?thesis ..
  next
    case sub
    with nl have "ilog2 \<bar>q\<bar> < - 1022" by linarith
    then have e: "e = - 1022" by (simp add: e_def)
    have "\<bar>r\<bar> < pow2 52 * pow2 (e - 52)"
    proof -
      have "(of_int \<bar>n\<bar> :: rat) < of_int 4503599627370496"
        using sub by (simp only: of_int_less_iff)
      then have "of_int \<bar>n\<bar> < pow2 52" by (simp add: pow2_52)
      then show ?thesis unfolding absr using u by (intro mult_strict_right_mono) simp_all
    qed
    also have "\<dots> = pow2 e" by (simp add: pow2_add [symmetric])
    finally have hi: "\<bar>r\<bar> < pow2 e" .
    have "0 < \<bar>r\<bar>" using r0 by simp
    from ilog2_bounds [OF this] hi have "pow2 (ilog2 \<bar>r\<bar>) < pow2 e" by linarith
    then have "ilog2 \<bar>r\<bar> < e" by (simp add: pow2_less_iff)
    then have mx: "max (ilog2 \<bar>r\<bar>) (- 1022) = e"
      unfolding e by simp
    have "r = of_int n * pow2 (max (ilog2 \<bar>r\<bar>) (- 1022) - 52)"
      by (subst mx) (rule r)
    from round_double_exact [OF r0 this fin] show ?thesis ..
  qed
qed

section \<open>The length of the ranked list\<close>

text \<open>
  C1, for a non-negative \<open>TOP_N\<close>: the ranked list has \<open>min(TOP_N, number of
  accumulators)\<close> entries, and when \<open>TOP_N\<close> is at least the number of accumulators
  it holds every accumulator once, with nothing added.
\<close>

theorem top_prefixes_length:
  assumes "distinct (map fst prefixes)" and "0 \<le> top_n"
  shows "length (top_prefixes top_n prefixes) = min (nat top_n) (card (fst ` set prefixes)) \<and>
         (int (card (fst ` set prefixes)) \<le> top_n \<longrightarrow>
            mset (top_prefixes top_n prefixes) = mset (all_prefixes prefixes))"
proof -
  have c: "card (fst ` set prefixes) = length prefixes"
    using assms(1) by (metis distinct_card length_map set_map)
  have len: "length (top_prefixes top_n prefixes) = min (nat top_n) (length prefixes)"
    using assms(2)
    by (simp add: top_prefixes_def length_slice_to length_sorted_reverse length_all_prefixes)
  have "mset (top_prefixes top_n prefixes) = mset (all_prefixes prefixes)"
    if "int (length prefixes) \<le> top_n"
    using that assms(2)
    by (simp add: top_prefixes_def slice_to_def length_sorted_reverse length_all_prefixes
        mset_sorted_reverse)
  with c len show ?thesis by simp
qed

text \<open>Two accumulators and \<open>TOP_N = 15\<close>: both are returned.\<close>

theorem top_prefixes_length_witness:
  "length (top_prefixes 15
      (aggregate [(''t'', [[''h''],
         [''a'', ''STANDARD'', '''', ''10'', ''1073741824'', ''21.0''],
         [''b'', ''GLACIER'', '''', ''4'', ''2048'', ''3.5'']])])) = 2 \<and>
   mset (top_prefixes 15
      (aggregate [(''t'', [[''h''],
         [''a'', ''STANDARD'', '''', ''10'', ''1073741824'', ''21.0''],
         [''b'', ''GLACIER'', '''', ''4'', ''2048'', ''3.5'']])])) =
   mset (all_prefixes
      (aggregate [(''t'', [[''h''],
         [''a'', ''STANDARD'', '''', ''10'', ''1073741824'', ''21.0''],
         [''b'', ''GLACIER'', '''', ''4'', ''2048'', ''3.5'']])]))"
proof -
  let ?P = "aggregate [(''t'', [[''h''],
         [''a'', ''STANDARD'', '''', ''10'', ''1073741824'', ''21.0''],
         [''b'', ''GLACIER'', '''', ''4'', ''2048'', ''3.5'']])]"
  have keys: "map fst ?P = [(''t'', ''a''), (''t'', ''b'')]" by code_simp
  have d: "distinct (map fst ?P)" unfolding keys by simp
  have "fst ` set ?P = set (map fst ?P)" by simp
  then have c: "card (fst ` set ?P) = 2" unfolding keys by simp
  show ?thesis
    using top_prefixes_length [OF d, of 15] unfolding c by simp
qed

text \<open>
  With \<open>TOP_N = -1\<close> the slice \<open>[:-1]\<close> drops the last entry only: of two
  accumulators one is still ranked, the list is not empty.
\<close>

theorem top_prefixes_negative_counterexample:
  "card (fst ` set (aggregate [(''t'', [[''h''],
         [''a'', ''STANDARD'', '''', ''10'', ''1073741824'', ''21.0''],
         [''b'', ''GLACIER'', '''', ''4'', ''2048'', ''3.5'']])])) = 2 \<and>
   map (\<lambda>x. fst (snd x)) (top_prefixes (- 1)
      (aggregate [(''t'', [[''h''],
         [''a'', ''STANDARD'', '''', ''10'', ''1073741824'', ''21.0''],
         [''b'', ''GLACIER'', '''', ''4'', ''2048'', ''3.5'']])])) = [''a'']"
proof -
  let ?P = "aggregate [(''t'', [[''h''],
         [''a'', ''STANDARD'', '''', ''10'', ''1073741824'', ''21.0''],
         [''b'', ''GLACIER'', '''', ''4'', ''2048'', ''3.5'']])]"
  have keys: "map fst ?P = [(''t'', ''a''), (''t'', ''b'')]" by code_simp
  have "fst ` set ?P = set (map fst ?P)" by simp
  then have c: "card (fst ` set ?P) = 2" unfolding keys by simp
  have "map (\<lambda>x. fst (snd x)) (top_prefixes (- 1) ?P) = [''a'']" by code_simp
  with c show ?thesis by simp
qed

section \<open>The aggregation keeps the totals and the breakdown in step\<close>

lemma update_absent: "map_of al k = None \<Longrightarrow> AList.update k v al = al @ [(k, v)]"
  by (induction al) (auto split: if_splits)

lemma map_entry_append_last:
  "map_of al k = None \<Longrightarrow> AList.map_entry k f (al @ [(k, v)]) = al @ [(k, f v)]"
  by (induction al) (auto split: if_splits)

lemma add_measurement_new:
  "map_of ps (t, m_prefix m) = None \<Longrightarrow>
   add_measurement t m ps = ps @ [((t, m_prefix m), bump m (new_prefix_data t (m_prefix m)))]"
  by (simp add: add_measurement_def Let_def update_absent map_entry_append_last)

lemma add_measurement_old:
  "map_of ps (t, m_prefix m) = Some d \<Longrightarrow>
   add_measurement t m ps = AList.map_entry (t, m_prefix m) (bump m) ps"
  by (simp add: add_measurement_def Let_def)

lemma set_map_entry:
  "set (AList.map_entry k f al) \<subseteq> set al \<union> {(k, f v) |v. (k, v) \<in> set al}"
  by (induction al) auto

lemma keys_map_entry: "map fst (AList.map_entry k f al) = map fst al"
  by (induction al) auto

lemma keys_add_measurement:
  "map fst (add_measurement t m ps) =
     (if map_of ps (t, m_prefix m) = None then map fst ps @ [(t, m_prefix m)] else map fst ps)"
  by (cases "map_of ps (t, m_prefix m)")
    (simp_all add: add_measurement_new add_measurement_old keys_map_entry)

lemma distinct_add_measurement:
  "distinct (map fst ps) \<Longrightarrow> distinct (map fst (add_measurement t m ps))"
  by (auto simp: keys_add_measurement map_of_eq_None_iff)

lemma float_sum_snoc: "float_sum (cs @ [c]) = fadd (float_sum cs) c"
  by (simp add: float_sum_def)

lemma acc_ok_new: "acc_ok ((t, p), new_prefix_data t p)"
  by (simp add: acc_ok_def new_prefix_data_def float_sum_def)

lemma acc_ok_bump: "acc_ok (k, d) \<Longrightarrow> acc_ok (k, bump m d)"
  by (simp add: acc_ok_def bump_def entry_of_def float_sum_snoc)

lemma acc_ok_add_measurement:
  assumes "list_all acc_ok ps"
  shows "list_all acc_ok (add_measurement t m ps)"
proof (cases "map_of ps (t, m_prefix m)")
  case None
  then show ?thesis
    using assms acc_ok_bump [OF acc_ok_new] by (simp add: add_measurement_new)
next
  case (Some d)
  have "acc_ok kd" if "kd \<in> set (add_measurement t m ps)" for kd
  proof -
    from that have "kd \<in> set ps \<or>
        (\<exists>v. kd = ((t, m_prefix m), bump m v) \<and> ((t, m_prefix m), v) \<in> set ps)"
      using set_map_entry [of "(t, m_prefix m)" "bump m" ps] Some
      by (auto simp: add_measurement_old)
    then show "acc_ok kd"
      using assms acc_ok_bump by (auto simp: list_all_iff)
  qed
  then show ?thesis by (simp add: list_all_iff)
qed

lemma acc_ok_process_row:
  "list_all acc_ok ps \<Longrightarrow> list_all acc_ok (process_row t row ps)"
  by (simp add: process_row_def acc_ok_add_measurement split: option.splits)

lemma distinct_process_row:
  "distinct (map fst ps) \<Longrightarrow> distinct (map fst (process_row t row ps))"
  by (simp add: process_row_def distinct_add_measurement split: option.splits)

lemma acc_ok_aggregate_rows:
  "list_all acc_ok ps \<Longrightarrow> list_all acc_ok (aggregate_rows t rows ps)"
  unfolding aggregate_rows_def
  by (induction rows arbitrary: ps) (simp_all add: acc_ok_process_row)

lemma distinct_aggregate_rows:
  "distinct (map fst ps) \<Longrightarrow> distinct (map fst (aggregate_rows t rows ps))"
  unfolding aggregate_rows_def
  by (induction rows arbitrary: ps) (simp_all add: distinct_process_row)

lemma aggregate_inv:
  "list_all acc_ok (aggregate results) \<and> distinct (map fst (aggregate results))"
proof -
  have "list_all acc_ok ps \<and> distinct (map fst ps) \<Longrightarrow>
        list_all acc_ok
          (foldl (\<lambda>ps (t, csv_rows). aggregate_rows t (drop 1 csv_rows) ps) ps results) \<and>
        distinct (map fst
          (foldl (\<lambda>ps (t, csv_rows). aggregate_rows t (drop 1 csv_rows) ps) ps results))"
    for ps
  proof (induction results arbitrary: ps)
    case Nil
    then show ?case by simp
  next
    case (Cons r results)
    obtain t csv_rows where r: "r = (t, csv_rows)" by (cases r)
    show ?case
      using Cons.prems unfolding r foldl_Cons prod.case
      by (intro Cons.IH) (simp add: acc_ok_aggregate_rows distinct_aggregate_rows)
  qed
  then show ?thesis by (simp add: aggregate_def)
qed

lemma fsub_self: "is_finite x \<Longrightarrow> fsub x x = Fin 0"
  by (cases x) (auto simp: fsub_def is_finite_def)

lemma tolerance_value:
  "round_double (1 / 1000000000) = Fin (4835703278458517 / 4835703278458516698824704)"
  by code_simp

lemma within_tolerance_self: "is_finite x \<Longrightarrow> within_tolerance x x"
  by (simp add: within_tolerance_def fsub_self tolerance_value fle_def fge_def)

lemma not_within_tolerance_NaN: "\<not> within_tolerance NaN y"
  by (cases y) (simp_all add: within_tolerance_def fsub_def fle_def fge_def)

section \<open>The sum invariant\<close>

text \<open>
  C3, as the code has it: after the aggregation every accumulator's size and object
  totals are the integer sums over its breakdown list, and its cost total is the float
  sum of the breakdown costs taken from zero in list order, so that the two agree
  within \<open>1e-9\<close> whenever the total is finite.
\<close>

theorem sum_invariant:
  assumes "(key, d) \<in> set (aggregate results)"
  shows "total_size_bytes d = sum_list (map entry_size_bytes (breakdown d)) \<and>
         total_objects d = sum_list (map object_count (breakdown d)) \<and>
         total_cost_usd d = float_sum (map estimated_cost_usd (breakdown d)) \<and>
         (is_finite (total_cost_usd d) \<longrightarrow>
            within_tolerance (total_cost_usd d)
              (float_sum (map estimated_cost_usd (breakdown d))))"
proof -
  have "acc_ok (key, d)"
    using aggregate_inv [of results] assms by (auto simp: list_all_iff)
  then show ?thesis
    by (simp add: acc_ok_def within_tolerance_self)
qed

lemma example_two_tiers:
  "aggregate [(''t'', [[''h''],
      [''a'', ''STANDARD'', '''', ''10'', ''1073741824'', ''21.0''],
      [''a'', ''GLACIER'', '''', ''4'', ''2048'', ''3.5'']])] =
   [((''t'', ''a''),
     \<lparr>table = ''t'', prefix = ''a'', total_size_bytes = 1073743872, total_objects = 14,
      total_cost_usd = Fin (49 / 2),
      breakdown =
        [\<lparr>storage_class = ''STANDARD'', intelligent_tiering_access_tier = [],
          object_count = 10, entry_size_bytes = 1073741824, estimated_cost_usd = Fin 21\<rparr>,
         \<lparr>storage_class = ''GLACIER'', intelligent_tiering_access_tier = [],
          object_count = 4, entry_size_bytes = 2048, estimated_cost_usd = Fin (7 / 2)\<rparr>]\<rparr>)]"
  by code_simp

text \<open>One prefix with two tiers: 10 + 4 objects, 21.0 + 3.5 dollars.\<close>

theorem sum_invariant_witness:
  "total_size_bytes (snd (hd (aggregate [(''t'', [[''h''],
      [''a'', ''STANDARD'', '''', ''10'', ''1073741824'', ''21.0''],
      [''a'', ''GLACIER'', '''', ''4'', ''2048'', ''3.5'']])]))) = 1073741824 + 2048 \<and>
   total_objects (snd (hd (aggregate [(''t'', [[''h''],
      [''a'', ''STANDARD'', '''', ''10'', ''1073741824'', ''21.0''],
      [''a'', ''GLACIER'', '''', ''4'', ''2048'', ''3.5'']])]))) = 10 + 4 \<and>
   within_tolerance
     (total_cost_usd (snd (hd (aggregate [(''t'', [[''h''],
      [''a'', ''STANDARD'', '''', ''10'', ''1073741824'', ''21.0''],
      [''a'', ''GLACIER'', '''', ''4'', ''2048'', ''3.5'']])]))))
     (float_sum [Fin 21, Fin (7 / 2)])"
proof -
  let ?R = "[(''t'', [[''h''],
      [''a'', ''STANDARD'', '''', ''10'', ''1073741824'', ''21.0''],
      [''a'', ''GLACIER'', '''', ''4'', ''2048'', ''3.5'']])]"
  have m: "(fst (hd (aggregate ?R)), snd (hd (aggregate ?R))) \<in> set (aggregate ?R)"
    unfolding example_two_tiers by simp
  show ?thesis
    using sum_invariant [OF m]
    unfolding example_two_tiers by (auto simp: is_finite_def)
qed

lemma example_nan:
  "aggregate [(''t'', [[''h''], [''a'', ''STANDARD'', '''', ''1'', ''1'', ''nan'']])] =
   [((''t'', ''a''),
     \<lparr>table = ''t'', prefix = ''a'', total_size_bytes = 1, total_objects = 1,
      total_cost_usd = NaN,
      breakdown =
        [\<lparr>storage_class = ''STANDARD'', intelligent_tiering_access_tier = [],
          object_count = 1, entry_size_bytes = 1, estimated_cost_usd = NaN\<rparr>]\<rparr>)]"
  by code_simp

text \<open>
  \<open>float("nan")\<close> is a float: a row whose cost field is \<open>nan\<close> gives a NaN total, and
  \<open>abs(total - sum) <= 1e-9\<close> is false for it.
\<close>

theorem sum_invariant_nan_counterexample:
  "\<not> within_tolerance
      (total_cost_usd (snd (hd (aggregate
         [(''t'', [[''h''], [''a'', ''STANDARD'', '''', ''1'', ''1'', ''nan'']])]))))
      (float_sum (map estimated_cost_usd (breakdown (snd (hd (aggregate
         [(''t'', [[''h''], [''a'', ''STANDARD'', '''', ''1'', ''1'', ''nan'']])]))))))"
  unfolding example_nan by (simp add: not_within_tolerance_NaN)

section \<open>The order of the ranked list\<close>

lemma ranked_cost_top_prefixes:
  "x \<in> set (top_prefixes top_n prefixes) \<Longrightarrow>
   \<exists>kd\<in>set prefixes. x = (fst (fst kd), snd (fst kd), total_cost_usd (snd kd), snd kd)"
proof -
  assume "x \<in> set (top_prefixes top_n prefixes)"
  then have "x \<in> set (sorted_reverse (\<lambda>x. fst (snd (snd x))) (all_prefixes prefixes))"
    by (auto simp: top_prefixes_def slice_to_def dest: in_set_takeD split: if_splits)
  then show ?thesis
    by (simp add: set_sorted_reverse ranked_cost_all_prefixes)
qed

text \<open>
  C4, when no accumulator has a NaN total: along the ranked list the total cost never
  increases, for every \<open>TOP_N\<close>.
\<close>

theorem top_prefixes_sorted:
  assumes "\<forall>kd\<in>set prefixes. total_cost_usd (snd kd) \<noteq> NaN"
    and "i + 1 < length (top_prefixes top_n prefixes)"
  shows "fge (total_cost_usd (snd (snd (snd (top_prefixes top_n prefixes ! i)))))
             (total_cost_usd (snd (snd (snd (top_prefixes top_n prefixes ! (i + 1))))))"
proof -
  let ?key = "\<lambda>x :: ranked. fst (snd (snd x))"
  have "\<forall>x\<in>set (all_prefixes prefixes). ?key x \<noteq> NaN"
    using assms(1) by (auto simp: all_prefixes_def)
  then have "sorted_wrt (\<lambda>a b. fge (?key a) (?key b)) (top_prefixes top_n prefixes)"
    unfolding top_prefixes_def by (intro sorted_wrt_slice_to sorted_sorted_reverse)
  then have ge: "fge (?key (top_prefixes top_n prefixes ! i))
                     (?key (top_prefixes top_n prefixes ! (i + 1)))"
    using assms(2) by (simp add: sorted_wrt_iff_nth_less)
  have k: "?key x = total_cost_usd (snd (snd (snd x)))"
    if "x \<in> set (top_prefixes top_n prefixes)" for x
    using ranked_cost_top_prefixes [OF that] by auto
  have "top_prefixes top_n prefixes ! i \<in> set (top_prefixes top_n prefixes)"
       "top_prefixes top_n prefixes ! (i + 1) \<in> set (top_prefixes top_n prefixes)"
    using assms(2) by simp_all
  with ge k show ?thesis by metis
qed

lemma example_two_prefixes:
  "aggregate [(''t'', [[''h''],
         [''a'', ''STANDARD'', '''', ''10'', ''1073741824'', ''21.0''],
         [''b'', ''GLACIER'', '''', ''4'', ''2048'', ''3.5'']])] =
   [((''t'', ''a''),
     \<lparr>table = ''t'', prefix = ''a'', total_size_bytes = 1073741824, total_objects = 10,
      total_cost_usd = Fin 21,
      breakdown =
        [\<lparr>storage_class = ''STANDARD'', intelligent_tiering_access_tier = [],
          object_count = 10, entry_size_bytes = 1073741824, estimated_cost_usd = Fin 21\<rparr>]\<rparr>),
    ((''t'', ''b''),
     \<lparr>table = ''t'', prefix = ''b'', total_size_bytes = 2048, total_objects = 4,
      total_cost_usd = Fin (7 / 2),
      breakdown =
        [\<lparr>storage_class = ''GLACIER'', intelligent_tiering_access_tier = [],
          object_count = 4, entry_size_bytes = 2048, estimated_cost_usd = Fin (7 / 2)\<rparr>]\<rparr>)]"
  by code_simp

text \<open>Costs 21.0 and 3.5: the first ranked entry costs at least the second.\<close>

theorem top_prefixes_sorted_witness:
  "fge (total_cost_usd (snd (snd (snd (top_prefixes 15
          (aggregate [(''t'', [[''h''],
             [''a'', ''STANDARD'', '''', ''10'', ''1073741824'', ''21.0''],
             [''b'', ''GLACIER'', '''', ''4'', ''2048'', ''3.5'']])]) ! 0)))))
       (total_cost_usd (snd (snd (snd (top_prefixes 15
          (aggregate [(''t'', [[''h''],
             [''a'', ''STANDARD'', '''', ''10'', ''1073741824'', ''21.0''],
             [''b'', ''GLACIER'', '''', ''4'', ''2048'', ''3.5'']])]) ! (0 + 1))))))"
proof -
  let ?P = "aggregate [(''t'', [[''h''],
             [''a'', ''STANDARD'', '''', ''10'', ''1073741824'', ''21.0''],
             [''b'', ''GLACIER'', '''', ''4'', ''2048'', ''3.5'']])]"
  have a: "\<forall>kd\<in>set ?P. total_cost_usd (snd kd) \<noteq> NaN"
    unfolding example_two_prefixes by simp
  have "length (top_prefixes 15 ?P) = 2"
    by (simp add: top_prefixes_def slice_to_def length_sorted_reverse length_all_prefixes
        example_two_prefixes)
  then have b: "0 + 1 < length (top_prefixes 15 ?P)" by simp
  show ?thesis by (rule top_prefixes_sorted [OF a b])
qed

lemma example_nan_prefix:
  "aggregate [(''t'', [[''h''],
         [''a'', ''STANDARD'', '''', ''1'', ''1'', ''nan''],
         [''b'', ''STANDARD'', '''', ''1'', ''1'', ''1.0'']])] =
   [((''t'', ''a''),
     \<lparr>table = ''t'', prefix = ''a'', total_size_bytes = 1, total_objects = 1,
      total_cost_usd = NaN,
      breakdown =
        [\<lparr>storage_class = ''STANDARD'', intelligent_tiering_access_tier = [],
          object_count = 1, entry_size_bytes = 1, estimated_cost_usd = NaN\<rparr>]\<rparr>),
    ((''t'', ''b''),
     \<lparr>table = ''t'', prefix = ''b'', total_size_bytes = 1, total_objects = 1,
      total_cost_usd = Fin 1,
      breakdown =
        [\<lparr>storage_class = ''STANDARD'', intelligent_tiering_access_tier = [],
          object_count = 1, entry_size_bytes = 1, estimated_cost_usd = Fin 1\<rparr>]\<rparr>)]"
  by code_simp

text \<open>
  A prefix whose cost field is \<open>nan\<close> has a NaN total; it is ranked next to a prefix
  of cost 1.0, and \<open>nan >= 1.0\<close> is false.
\<close>

theorem top_prefixes_nan_counterexample:
  "map (\<lambda>x. fst (snd (snd x))) (top_prefixes 15
      (aggregate [(''t'', [[''h''],
         [''a'', ''STANDARD'', '''', ''1'', ''1'', ''nan''],
         [''b'', ''STANDARD'', '''', ''1'', ''1'', ''1.0'']])])) = [NaN, Fin 1] \<and>
   \<not> fge NaN (Fin 1)"
  unfolding example_nan_prefix
  by (simp add: top_prefixes_def slice_to_def sorted_reverse_def all_prefixes_def fge_def)

section \<open>The conversions of the numeric fields\<close>

lemma py_float_garbage:
  "py_float ''abc'' = Inl ValueError"
  "py_float ''xyz'' = Inl ValueError"
  "py_float ''notanumber'' = Inl ValueError"
  by code_simp+

lemma py_float_special:
  "py_float ''inf'' = Inr PInf"
  "py_float ''nan'' = Inr NaN"
  by code_simp+

lemma py_float_3_9:
  "py_float ''3.9'' = Inr (Fin (8782019273372467 / 2251799813685248))"
  by code_simp

lemma py_float_negative:
  "py_float ''-5'' = Inr (Fin (- 5))"
  "py_float ''-7'' = Inr (Fin (- 7))"
  "py_float ''-1.5'' = Inr (Fin (- (3 / 2)))"
  by code_simp+

lemma int_or_zero_cases:
  "int_or_zero s =
     (case py_float s of
        Inl e \<Rightarrow> 0
      | Inr x \<Rightarrow>
          (case x of
             Fin q \<Rightarrow> (if 0 \<le> q then \<lfloor>q\<rfloor> else \<lceil>q\<rceil>)
           | _ \<Rightarrow> 0))"
  by (simp add: int_or_zero_def split: sum.splits pyfloat.splits)

text \<open>
  C9, as the code has it: a count or size field that \<open>float\<close> reads as a finite number
  is truncated toward zero (\<open>3.9\<close> gives 3, \<open>-3.9\<close> would give -3); the result 0 of the
  exception path comes from a field that \<open>float\<close> rejects and also from one it reads
  as NaN or an infinity, on which \<open>int\<close> raises.
\<close>

theorem int_or_zero_truncates:
  "(py_float s = Inr (Fin q) \<longrightarrow> int_or_zero s = (if 0 \<le> q then \<lfloor>q\<rfloor> else \<lceil>q\<rceil>)) \<and>
   (py_float s = Inl e \<longrightarrow> int_or_zero s = 0) \<and>
   (py_float s = Inr x \<and> \<not> is_finite x \<longrightarrow> int_or_zero s = 0)"
  by (cases x) (auto simp: int_or_zero_cases is_finite_def)

text \<open>The field \<open>3.9\<close> is read as the double nearest to 3.9 and truncated to 3.\<close>

theorem int_or_zero_truncates_witness:
  "py_float ''3.9'' = Inr (Fin (8782019273372467 / 2251799813685248)) \<and>
   int_or_zero ''3.9'' = 3 \<and>
   py_float ''abc'' = Inl ValueError \<and> int_or_zero ''abc'' = 0 \<and>
   py_float ''nan'' = Inr NaN \<and> int_or_zero ''nan'' = 0"
proof -
  have fl: "\<lfloor>8782019273372467 / 2251799813685248 :: rat\<rfloor> = 3"
    by code_simp
  show ?thesis
    using int_or_zero_truncates [of "''3.9''" "8782019273372467 / 2251799813685248" ValueError NaN]
      int_or_zero_truncates [of "''abc''" 0 ValueError NaN]
      int_or_zero_truncates [of "''nan''" 0 ValueError NaN]
    by (simp add: py_float_3_9 py_float_garbage py_float_special is_finite_def fl)
qed

text \<open>
  \<open>float("inf")\<close> succeeds, and \<open>int\<close> of it raises \<open>OverflowError\<close>, which the
  handler of \<open>int_or_zero\<close> turns into 0: a value that parses as a float is coerced to 0.
\<close>

theorem int_or_zero_inf_counterexample:
  "py_float ''inf'' = Inr PInf \<and> py_int_of_float PInf = Inl OverflowError \<and>
   int_or_zero ''inf'' = 0"
  by (simp add: int_or_zero_def py_float_special)

section \<open>The row normalizer\<close>

lemma normalize_row_short: "length row < 6 \<Longrightarrow> normalize_row row = None"
  by (simp add: normalize_row_def)

lemma normalize_row_long:
  "6 \<le> length row \<Longrightarrow>
   normalize_row row = Some \<lparr>
     m_prefix = (if row ! 0 = [] then ''(empty)'' else row ! 0),
     m_storage_class = (if row ! 1 = [] then ''UNKNOWN'' else row ! 1),
     m_itt = row ! 2,
     m_object_count = int_or_zero (row ! 3),
     m_total_size = int_or_zero (row ! 4),
     m_estimated_cost = float_or_zero (row ! 5) \<rparr>"
  by (auto simp: normalize_row_def)

lemma int_or_zero_raises:
  "(\<exists>e. py_float s = Inl e) \<or> (\<exists>x e. py_float s = Inr x \<and> py_int_of_float x = Inl e) \<Longrightarrow>
   int_or_zero s = 0"
  by (auto simp: int_or_zero_def)

lemma float_or_zero_raises: "py_float s = Inl e \<Longrightarrow> float_or_zero s = Fin 0"
  by (simp add: float_or_zero_def)

lemma int_or_zero_nonneg:
  "0 \<le> int_or_zero s \<longleftrightarrow> (\<forall>q. py_float s = Inr (Fin q) \<longrightarrow> - 1 < q)"
proof (cases "py_float s")
  case (Inl e)
  then show ?thesis by (simp add: int_or_zero_cases)
next
  case (Inr x)
  have "0 \<le> (if 0 \<le> q then \<lfloor>q\<rfloor> else \<lceil>q\<rceil>) \<longleftrightarrow> - 1 < q" for q :: rat
    by (simp add: zero_le_floor zero_le_ceiling)
  with Inr show ?thesis
    by (cases x) (simp_all add: int_or_zero_cases)
qed

lemma float_or_zero_nonneg:
  "fge (float_or_zero s) (Fin 0) \<longleftrightarrow> (\<forall>x. py_float s = Inr x \<longrightarrow> fge x (Fin 0))"
  by (cases "py_float s") (simp_all add: float_or_zero_def fge_def)

text \<open>
  C7, as the code has it: a row with fewer than six fields gives no measurement and
  leaves the accumulators as they are; otherwise an empty prefix becomes \<open>(empty)\<close>,
  an empty storage class becomes \<open>UNKNOWN\<close>, and a numeric field whose conversion
  raises (\<open>int(float(v))\<close> for count and size, \<open>float(v)\<close> for the cost) becomes
  zero. The result is a value in every case: no exception leaves the normalizer.
\<close>

theorem normalize_row_contract:
  "(length row < 6 \<longrightarrow> normalize_row row = None \<and> process_row t row ps = ps) \<and>
   (6 \<le> length row \<longrightarrow>
      (\<exists>m. normalize_row row = Some m \<and>
         m_prefix m = (if row ! 0 = [] then ''(empty)'' else row ! 0) \<and>
         m_storage_class m = (if row ! 1 = [] then ''UNKNOWN'' else row ! 1) \<and>
         ((\<exists>e. py_float (row ! 3) = Inl e) \<or>
          (\<exists>x e. py_float (row ! 3) = Inr x \<and> py_int_of_float x = Inl e)
            \<longrightarrow> m_object_count m = 0) \<and>
         ((\<exists>e. py_float (row ! 4) = Inl e) \<or>
          (\<exists>x e. py_float (row ! 4) = Inr x \<and> py_int_of_float x = Inl e)
            \<longrightarrow> m_total_size m = 0) \<and>
         ((\<exists>e. py_float (row ! 5) = Inl e) \<longrightarrow> m_estimated_cost m = Fin 0)))"
proof -
  have short: "normalize_row row = None \<and> process_row t row ps = ps" if "length row < 6"
    using that by (simp add: normalize_row_short process_row_def)
  have long: "\<exists>m. normalize_row row = Some m \<and>
         m_prefix m = (if row ! 0 = [] then ''(empty)'' else row ! 0) \<and>
         m_storage_class m = (if row ! 1 = [] then ''UNKNOWN'' else row ! 1) \<and>
         ((\<exists>e. py_float (row ! 3) = Inl e) \<or>
          (\<exists>x e. py_float (row ! 3) = Inr x \<and> py_int_of_float x = Inl e)
            \<longrightarrow> m_object_count m = 0) \<and>
         ((\<exists>e. py_float (row ! 4) = Inl e) \<or>
          (\<exists>x e. py_float (row ! 4) = Inr x \<and> py_int_of_float x = Inl e)
            \<longrightarrow> m_total_size m = 0) \<and>
         ((\<exists>e. py_float (row ! 5) = Inl e) \<longrightarrow> m_estimated_cost m = Fin 0)"
    if "6 \<le> length row"
    using normalize_row_long [OF that] int_or_zero_raises [of "row ! 3"]
      int_or_zero_raises [of "row ! 4"] float_or_zero_raises [of "row ! 5"]
    by auto
  from short long show ?thesis by blast
qed

text \<open>
  A row of four fields is dropped; the row \<open>("", "", "", "abc", "xyz", "notanumber")\<close>
  gives the placeholders and three zeros.
\<close>

theorem normalize_row_contract_witness:
  "normalize_row [''p'', ''STANDARD'', '''', ''7''] = None \<and>
   process_row ''t'' [''p'', ''STANDARD'', '''', ''7''] [] = [] \<and>
   normalize_row ['''', '''', '''', ''abc'', ''xyz'', ''notanumber''] =
     Some \<lparr>m_prefix = ''(empty)'', m_storage_class = ''UNKNOWN'', m_itt = '''',
           m_object_count = 0, m_total_size = 0, m_estimated_cost = Fin 0\<rparr>"
proof -
  have a: "normalize_row [''p'', ''STANDARD'', '''', ''7''] = None \<and>
           process_row ''t'' [''p'', ''STANDARD'', '''', ''7''] [] = []"
    using normalize_row_contract [of "[''p'', ''STANDARD'', '''', ''7'']" "''t''" "[]"]
    by simp
  obtain m where m: "normalize_row ['''', '''', '''', ''abc'', ''xyz'', ''notanumber''] = Some m"
    "m_prefix m = ''(empty)''" "m_storage_class m = ''UNKNOWN''"
    "m_object_count m = 0" "m_total_size m = 0" "m_estimated_cost m = Fin 0"
    using normalize_row_contract [of "['''', '''', '''', ''abc'', ''xyz'', ''notanumber'']" "''t''" "[]"]
    by (auto simp: py_float_garbage)
  have "m_itt m = ''''"
    using m(1) by (auto simp: normalize_row_def)
  with m have "m = \<lparr>m_prefix = ''(empty)'', m_storage_class = ''UNKNOWN'', m_itt = '''',
           m_object_count = 0, m_total_size = 0, m_estimated_cost = Fin 0\<rparr>"
    by (cases m) simp
  with a m(1) show ?thesis by simp
qed

text \<open>
  C5, as the code has it: an unparseable numeric field becomes zero, a parseable one
  keeps its sign. The count and the size of the measurement are non-negative exactly
  when the field does not read as a finite number of \<open>-1\<close> or less; the cost is
  \<open>>= 0.0\<close> exactly when the field is rejected by \<open>float\<close> or reads as a float
  \<open>>= 0.0\<close>.
\<close>

theorem normalize_row_sign:
  assumes "6 \<le> length row"
  shows "\<exists>m. normalize_row row = Some m \<and>
     (0 \<le> m_object_count m \<longleftrightarrow> (\<forall>q. py_float (row ! 3) = Inr (Fin q) \<longrightarrow> - 1 < q)) \<and>
     (0 \<le> m_total_size m \<longleftrightarrow> (\<forall>q. py_float (row ! 4) = Inr (Fin q) \<longrightarrow> - 1 < q)) \<and>
     (fge (m_estimated_cost m) (Fin 0) \<longleftrightarrow>
        (\<forall>x. py_float (row ! 5) = Inr x \<longrightarrow> fge x (Fin 0)))"
  using normalize_row_long [OF assms] int_or_zero_nonneg [of "row ! 3"]
    int_or_zero_nonneg [of "row ! 4"] float_or_zero_nonneg [of "row ! 5"]
  by simp

lemma normalize_row_garbage:
  "normalize_row [''p'', ''STANDARD'', '''', ''abc'', ''xyz'', ''notanumber''] =
     Some \<lparr>m_prefix = ''p'', m_storage_class = ''STANDARD'', m_itt = '''',
           m_object_count = 0, m_total_size = 0, m_estimated_cost = Fin 0\<rparr>"
  by (simp add: normalize_row_def int_or_zero_def float_or_zero_def py_float_garbage)

text \<open>The garbage row of the specification: count 0, size 0, cost 0.0, none negative.\<close>

theorem normalize_row_sign_witness:
  "normalize_row [''p'', ''STANDARD'', '''', ''abc'', ''xyz'', ''notanumber''] =
     Some \<lparr>m_prefix = ''p'', m_storage_class = ''STANDARD'', m_itt = '''',
           m_object_count = 0, m_total_size = 0, m_estimated_cost = Fin 0\<rparr> \<and>
   py_float ''abc'' = Inl ValueError \<and>
   py_float ''xyz'' = Inl ValueError \<and>
   py_float ''notanumber'' = Inl ValueError \<and>
   fge (Fin 0) (Fin 0)"
  using normalize_row_sign [of "[''p'', ''STANDARD'', '''', ''abc'', ''xyz'', ''notanumber'']"]
  by (simp add: normalize_row_garbage py_float_garbage fge_def)

lemma normalize_row_negative:
  "normalize_row [''p'', ''STANDARD'', '''', ''-5'', ''-7'', ''-1.5''] =
     Some \<lparr>m_prefix = ''p'', m_storage_class = ''STANDARD'', m_itt = '''',
           m_object_count = - 5, m_total_size = - 7, m_estimated_cost = Fin (- (3 / 2))\<rparr>"
  by (simp add: normalize_row_def int_or_zero_def float_or_zero_def py_float_negative)

text \<open>
  Negative fields are not clamped: the row \<open>("p", "STANDARD", "", "-5", "-7", "-1.5")\<close>
  gives a measurement with count -5, size -7 and cost -1.5, and the accumulator built
  from it alone has these negative totals.
\<close>

theorem normalize_row_negative_counterexample:
  "normalize_row [''p'', ''STANDARD'', '''', ''-5'', ''-7'', ''-1.5''] =
     Some \<lparr>m_prefix = ''p'', m_storage_class = ''STANDARD'', m_itt = '''',
           m_object_count = - 5, m_total_size = - 7, m_estimated_cost = Fin (- (3 / 2))\<rparr> \<and>
   map (\<lambda>kd. (total_objects (snd kd), total_size_bytes (snd kd), total_cost_usd (snd kd)))
     (aggregate [(''t'', [[''h''], [''p'', ''STANDARD'', '''', ''-5'', ''-7'', ''-1.5'']])]) =
     [(- 5, - 7, Fin (- (3 / 2)))] \<and>
   \<not> fge (Fin (- (3 / 2))) (Fin 0)"
proof -
  have r: "round_double (- (3 / 2)) = Fin (- (3 / 2))" by code_simp
  show ?thesis
    by (simp add: normalize_row_negative aggregate_def aggregate_rows_def process_row_def
        add_measurement_def new_prefix_data_def bump_def entry_of_def fge_def r)
qed

section \<open>A row whose numbers are all unparseable\<close>

lemma bytes_to_gb_zero: "bytes_to_gb 0 = Inr (Fin 0)"
  by (simp add: bytes_to_gb_def py_float_of_int_def round_double_def)

lemma fadd_zero_zero: "fadd (Fin 0) (Fin 0) = Fin 0"
  by simp

text \<open>
  C10: a row of at least six fields whose three numeric fields are rejected by
  \<open>float\<close> still reaches the aggregator. Its key is in the mapping afterwards; a new
  key gets an accumulator with zero totals and one breakdown entry of count 0, size 0
  and cost 0.0, which adds one to the number of accumulators; and from an empty
  mapping this accumulator is ranked for every \<open>TOP_N >= 1\<close> and is rendered as a
  summary row and one breakdown row.
\<close>

theorem unparseable_row_accumulates:
  assumes "6 \<le> length row"
    and "py_float (row ! 3) = Inl e3" "py_float (row ! 4) = Inl e4" "py_float (row ! 5) = Inl e5"
    and "p = (if row ! 0 = [] then ''(empty)'' else row ! 0)"
    and "b = \<lparr>storage_class = (if row ! 1 = [] then ''UNKNOWN'' else row ! 1),
               intelligent_tiering_access_tier = row ! 2,
               object_count = 0, entry_size_bytes = 0, estimated_cost_usd = Fin 0\<rparr>"
    and "d = \<lparr>table = t, prefix = p, total_size_bytes = 0, total_objects = 0,
               total_cost_usd = Fin 0, breakdown = [b]\<rparr>"
    and "1 \<le> top_n"
  shows "(t, p) \<in> fst ` set (process_row t row ps) \<and>
         (map_of ps (t, p) = None \<longrightarrow>
            process_row t row ps = ps @ [((t, p), d)] \<and>
            length (process_row t row ps) = length ps + 1) \<and>
         top_prefixes top_n (process_row t row []) = [(t, p, Fin 0, d)] \<and>
         report_rows top_n (process_row t row []) =
           Inr [summary_row 1 t p d (Fin 0), breakdown_row 1 t p b (Fin 0)]"
proof -
  define m where "m = \<lparr>m_prefix = p, m_storage_class = storage_class b, m_itt = row ! 2,
      m_object_count = 0, m_total_size = 0, m_estimated_cost = Fin 0\<rparr>"
  have n: "normalize_row row = Some m"
    using normalize_row_long [OF assms(1)] assms(2-6)
    by (simp add: m_def int_or_zero_def float_or_zero_def)
  have pr: "process_row t row qs = add_measurement t m qs" for qs
    by (simp add: process_row_def n)
  have mp: "m_prefix m = p" by (simp add: m_def)
  have bd: "bump m (new_prefix_data t p) = d"
    by (simp add: bump_def new_prefix_data_def entry_of_def m_def assms(6,7))
  have key: "(t, p) \<in> fst ` set (process_row t row ps)"
  proof -
    have "(t, p) \<in> set (map fst (add_measurement t m ps))"
      unfolding keys_add_measurement mp
      using map_of_eq_None_iff [of ps "(t, p)"] by (cases "map_of ps (t, p)") auto
    then show ?thesis by (simp add: pr)
  qed
  have new: "process_row t row qs = qs @ [((t, p), d)]" if "map_of qs (t, p) = None" for qs
    using add_measurement_new [of qs t m] that by (simp add: pr mp bd)
  have one: "process_row t row [] = [((t, p), d)]"
    using new [of "[]"] by simp
  have top: "top_prefixes top_n (process_row t row []) = [(t, p, Fin 0, d)]"
    using assms(8)
    by (simp add: one top_prefixes_def all_prefixes_def sorted_reverse_def slice_to_def assms(7))
  have rep: "report_rows top_n (process_row t row []) =
      Inr [summary_row 1 t p d (Fin 0), breakdown_row 1 t p b (Fin 0)]"
    unfolding report_rows_def top
    by (simp add: render_prefix_def sorted_reverse_def bytes_to_gb_zero assms(6,7))
  from key new top rep show ?thesis by simp
qed

text \<open>The garbage row of the specification, on an empty mapping, with \<open>TOP_N = 15\<close>.\<close>

theorem unparseable_row_accumulates_witness:
  "process_row ''t'' [''p'', ''STANDARD'', '''', ''abc'', ''xyz'', ''notanumber''] [] =
     [((''t'', ''p''),
       \<lparr>table = ''t'', prefix = ''p'', total_size_bytes = 0, total_objects = 0,
        total_cost_usd = Fin 0,
        breakdown = [\<lparr>storage_class = ''STANDARD'', intelligent_tiering_access_tier = '''',
                      object_count = 0, entry_size_bytes = 0, estimated_cost_usd = Fin 0\<rparr>]\<rparr>)] \<and>
   length (top_prefixes 15
     (process_row ''t'' [''p'', ''STANDARD'', '''', ''abc'', ''xyz'', ''notanumber''] [])) = 1 \<and>
   map_sum id length (report_rows 15
     (process_row ''t'' [''p'', ''STANDARD'', '''', ''abc'', ''xyz'', ''notanumber''] [])) = Inr 2"
  using unparseable_row_accumulates
    [of "[''p'', ''STANDARD'', '''', ''abc'', ''xyz'', ''notanumber'']"
        ValueError ValueError ValueError "''p''"
        "\<lparr>storage_class = ''STANDARD'', intelligent_tiering_access_tier = '''',
          object_count = 0, entry_size_bytes = 0, estimated_cost_usd = Fin 0\<rparr>"
        "\<lparr>table = ''t'', prefix = ''p'', total_size_bytes = 0, total_objects = 0,
          total_cost_usd = Fin 0,
          breakdown = [\<lparr>storage_class = ''STANDARD'', intelligent_tiering_access_tier = '''',
                        object_count = 0, entry_size_bytes = 0, estimated_cost_usd = Fin 0\<rparr>]\<rparr>"
        "''t''" 15 "[]"]
  by (auto simp: py_float_garbage)

section \<open>The rows of one ranked accumulator\<close>

lemma breakdown_rows_ok:
  assumes "\<forall>b\<in>set bs. \<exists>gb. bytes_to_gb (entry_size_bytes b) = Inr gb"
  shows "\<exists>rows. breakdown_rows rank t p bs = Inr rows \<and> length rows = length bs \<and>
           (\<forall>i<length bs. \<exists>gb. bytes_to_gb (entry_size_bytes (bs ! i)) = Inr gb \<and>
                             rows ! i = breakdown_row rank t p (bs ! i) gb)"
  using assms
proof (induction bs)
  case Nil
  then show ?case by simp
next
  case (Cons b bs)
  then obtain gb where gb: "bytes_to_gb (entry_size_bytes b) = Inr gb" by auto
  from Cons obtain rows where rows: "breakdown_rows rank t p bs = Inr rows"
    "length rows = length bs"
    "\<forall>i<length bs. \<exists>gb. bytes_to_gb (entry_size_bytes (bs ! i)) = Inr gb \<and>
                        rows ! i = breakdown_row rank t p (bs ! i) gb"
    by auto
  have "\<exists>g. bytes_to_gb (entry_size_bytes ((b # bs) ! i)) = Inr g \<and>
            (breakdown_row rank t p b gb # rows) ! i = breakdown_row rank t p ((b # bs) ! i) g"
    if "i < length (b # bs)" for i
    using that gb rows(3) by (cases i) auto
  then show ?case
    using gb rows(1,2) by simp
qed

text \<open>
  C2, as the code has it: when the sizes convert to float, an accumulator of the
  ranked list is rendered as its summary row followed by one breakdown row for every
  entry of its breakdown list (an entry per input row, also when two rows have the same
  tier), in the order of the stable sort by cost, which is descending when no cost is
  NaN.
\<close>

theorem render_prefix_rows:
  assumes "bytes_to_gb (total_size_bytes d) = Inr g"
    and "\<forall>b\<in>set (breakdown d). \<exists>gb. bytes_to_gb (entry_size_bytes b) = Inr gb"
    and "bs = sorted_reverse estimated_cost_usd (breakdown d)"
  shows "\<exists>rows. render_prefix rank (t, p, c, d) = Inr (summary_row rank t p d g # rows) \<and>
           length (summary_row rank t p d g # rows) = 1 + length (breakdown d) \<and>
           mset bs = mset (breakdown d) \<and>
           (\<forall>i<length bs. \<exists>gb. bytes_to_gb (entry_size_bytes (bs ! i)) = Inr gb \<and>
                             rows ! i = breakdown_row rank t p (bs ! i) gb) \<and>
           ((\<forall>b\<in>set (breakdown d). estimated_cost_usd b \<noteq> NaN) \<longrightarrow>
              sorted_wrt (\<lambda>a b. fge (estimated_cost_usd a) (estimated_cost_usd b)) bs)"
proof -
  have "\<forall>b\<in>set bs. \<exists>gb. bytes_to_gb (entry_size_bytes b) = Inr gb"
    using assms(2) by (simp add: assms(3) set_sorted_reverse)
  from breakdown_rows_ok [OF this, of rank t p]
  obtain rows where rows: "breakdown_rows rank t p bs = Inr rows" "length rows = length bs"
    "\<forall>i<length bs. \<exists>gb. bytes_to_gb (entry_size_bytes (bs ! i)) = Inr gb \<and>
                        rows ! i = breakdown_row rank t p (bs ! i) gb"
    by auto
  have r: "render_prefix rank (t, p, c, d) = Inr (summary_row rank t p d g # rows)"
    using assms(1) rows(1) by (simp add: render_prefix_def assms(3))
  have l: "length bs = length (breakdown d)"
    by (simp add: assms(3) length_sorted_reverse)
  have m: "mset bs = mset (breakdown d)"
    by (simp add: assms(3) mset_sorted_reverse)
  have s: "sorted_wrt (\<lambda>a b. fge (estimated_cost_usd a) (estimated_cost_usd b)) bs"
    if "\<forall>b\<in>set (breakdown d). estimated_cost_usd b \<noteq> NaN"
    unfolding assms(3) using that by (rule sorted_sorted_reverse)
  from r l m s rows(2,3) show ?thesis by auto
qed

lemma bytes_to_gb_examples:
  "bytes_to_gb 1073741824 = Inr (Fin 1)"
  "bytes_to_gb 2048 = Inr (Fin (1 / 524288))"
  "bytes_to_gb 1073743872 = Inr (Fin (524289 / 524288))"
  by code_simp+

text \<open>One prefix with a STANDARD entry of cost 21.0 and a GLACIER entry of cost 3.5.\<close>

theorem render_prefix_rows_witness:
  "render_prefix 1 (''t'', ''a'', Fin (49 / 2), snd (hd (aggregate [(''t'', [[''h''],
      [''a'', ''STANDARD'', '''', ''10'', ''1073741824'', ''21.0''],
      [''a'', ''GLACIER'', '''', ''4'', ''2048'', ''3.5'']])]))) =
   Inr [summary_row 1 ''t'' ''a'' (snd (hd (aggregate [(''t'', [[''h''],
          [''a'', ''STANDARD'', '''', ''10'', ''1073741824'', ''21.0''],
          [''a'', ''GLACIER'', '''', ''4'', ''2048'', ''3.5'']])])))
          (Fin (524289 / 524288)),
        breakdown_row 1 ''t'' ''a''
          \<lparr>storage_class = ''STANDARD'', intelligent_tiering_access_tier = [],
           object_count = 10, entry_size_bytes = 1073741824, estimated_cost_usd = Fin 21\<rparr>
          (Fin 1),
        breakdown_row 1 ''t'' ''a''
          \<lparr>storage_class = ''GLACIER'', intelligent_tiering_access_tier = [],
           object_count = 4, entry_size_bytes = 2048, estimated_cost_usd = Fin (7 / 2)\<rparr>
          (Fin (1 / 524288))]"
proof -
  let ?d = "snd (hd (aggregate [(''t'', [[''h''],
      [''a'', ''STANDARD'', '''', ''10'', ''1073741824'', ''21.0''],
      [''a'', ''GLACIER'', '''', ''4'', ''2048'', ''3.5'']])]))"
  have a: "bytes_to_gb (total_size_bytes ?d) = Inr (Fin (524289 / 524288))"
    unfolding example_two_tiers by (simp add: bytes_to_gb_examples)
  have b: "\<forall>b\<in>set (breakdown ?d). \<exists>gb. bytes_to_gb (entry_size_bytes b) = Inr gb"
    unfolding example_two_tiers by (simp add: bytes_to_gb_examples)
  have bs: "sorted_reverse estimated_cost_usd (breakdown ?d) = breakdown ?d"
    unfolding example_two_tiers by (simp add: sorted_reverse_def)
  obtain rows where rows:
    "render_prefix 1 (''t'', ''a'', Fin (49 / 2), ?d) =
       Inr (summary_row 1 ''t'' ''a'' ?d (Fin (524289 / 524288)) # rows)"
    "length (summary_row 1 ''t'' ''a'' ?d (Fin (524289 / 524288)) # rows) = 1 + length (breakdown ?d)"
    "\<forall>i<length (breakdown ?d). \<exists>gb. bytes_to_gb (entry_size_bytes (breakdown ?d ! i)) = Inr gb \<and>
          rows ! i = breakdown_row 1 ''t'' ''a'' (breakdown ?d ! i) gb"
    using render_prefix_rows [OF a b bs [symmetric], of 1 "''t''" "''a''" "Fin (49 / 2)"]
    unfolding bs by blast
  have len: "length rows = 2"
    using rows(2) unfolding example_two_tiers by simp
  have r0: "rows ! 0 = breakdown_row 1 ''t'' ''a''
          \<lparr>storage_class = ''STANDARD'', intelligent_tiering_access_tier = [],
           object_count = 10, entry_size_bytes = 1073741824, estimated_cost_usd = Fin 21\<rparr>
          (Fin 1)"
    using rows(3) [rule_format, of 0] unfolding example_two_tiers
    by (auto simp: bytes_to_gb_examples)
  have r1: "rows ! 1 = breakdown_row 1 ''t'' ''a''
          \<lparr>storage_class = ''GLACIER'', intelligent_tiering_access_tier = [],
           object_count = 4, entry_size_bytes = 2048, estimated_cost_usd = Fin (7 / 2)\<rparr>
          (Fin (1 / 524288))"
    using rows(3) [rule_format, of 1] unfolding example_two_tiers
    by (auto simp: bytes_to_gb_examples)
  have "rows = [rows ! 0, rows ! 1]"
    using len by (cases rows; cases "tl rows") auto
  with r0 r1 rows(1) show ?thesis by simp
qed

lemma example_same_tier:
  "aggregate [(''t'', [[''h''],
      [''a'', ''STANDARD'', '''', ''1'', ''1'', ''1.0''],
      [''a'', ''STANDARD'', '''', ''1'', ''1'', ''1.0'']])] =
   [((''t'', ''a''),
     \<lparr>table = ''t'', prefix = ''a'', total_size_bytes = 2, total_objects = 2,
      total_cost_usd = Fin 2,
      breakdown =
        [\<lparr>storage_class = ''STANDARD'', intelligent_tiering_access_tier = [],
          object_count = 1, entry_size_bytes = 1, estimated_cost_usd = Fin 1\<rparr>,
         \<lparr>storage_class = ''STANDARD'', intelligent_tiering_access_tier = [],
          object_count = 1, entry_size_bytes = 1, estimated_cost_usd = Fin 1\<rparr>]\<rparr>)]"
  by code_simp

lemma bytes_to_gb_small:
  "bytes_to_gb 1 = Inr (Fin (1 / 1073741824))"
  "bytes_to_gb 2 = Inr (Fin (1 / 536870912))"
  by code_simp+

text \<open>
  Two input rows of the same prefix and the same tier (STANDARD, no access tier): the
  accumulator has one distinct tier and is rendered as three rows, a summary row and two
  breakdown rows, not as \<open>1 + 1\<close> rows.
\<close>

theorem render_same_tier_counterexample:
  "card (tier_key ` set (breakdown (snd (hd (aggregate [(''t'', [[''h''],
      [''a'', ''STANDARD'', '''', ''1'', ''1'', ''1.0''],
      [''a'', ''STANDARD'', '''', ''1'', ''1'', ''1.0'']])]))))) = 1 \<and>
   map_sum id length (report_rows 15 (aggregate [(''t'', [[''h''],
      [''a'', ''STANDARD'', '''', ''1'', ''1'', ''1.0''],
      [''a'', ''STANDARD'', '''', ''1'', ''1'', ''1.0'']])])) = Inr 3"
  unfolding example_same_tier
  by (simp add: tier_key_def report_rows_def top_prefixes_def all_prefixes_def
      sorted_reverse_def slice_to_def render_prefix_def bytes_to_gb_small)

section \<open>The order of two rows of one prefix\<close>

lemma round_double_not_NaN: "round_double q \<noteq> NaN"
  by (simp add: round_double_def Let_def)

lemma is_double_round_double: "is_double (round_double q)"
proof (cases "round_double q")
  case (Fin r)
  from round_double_idem [OF this] show ?thesis by (simp add: is_double_def Fin)
qed (simp_all add: is_double_def)

lemma is_double_float_or_zero: "is_double (float_or_zero s)"
proof -
  have "is_double x" if "py_float s = Inr x" for x
    using that is_double_round_double
    by (auto simp: py_float_def Let_def is_double_def split: option.splits prod.splits if_splits)
  then show ?thesis
    by (cases "py_float s") (simp_all add: float_or_zero_def is_double_def)
qed

lemma fadd_commute: "fadd x y = fadd y x"
  by (cases x; cases y) (simp_all add: add.commute)

lemma fadd_zero_left:
  "is_double x \<Longrightarrow> fadd (Fin 0) x = (if x = NegZero then Fin 0 else x)"
  by (cases x) (auto simp: is_double_def)

lemma fadd_NegZero_right:
  "is_double x \<Longrightarrow> x \<noteq> NegZero \<Longrightarrow> fadd x NegZero = x"
  by (cases x) (auto simp: is_double_def)

lemma fadd_two_commute:
  assumes "is_double a" "is_double b"
  shows "fadd (fadd (Fin 0) a) b = fadd (fadd (Fin 0) b) a"
proof (cases "a = NegZero")
  case True
  show ?thesis
  proof (cases "b = NegZero")
    case True
    with \<open>a = NegZero\<close> show ?thesis by simp
  next
    case False
    then show ?thesis
      using assms(2) True by (simp add: fadd_zero_left fadd_NegZero_right)
  qed
next
  case False
  show ?thesis
  proof (cases "b = NegZero")
    case True
    then show ?thesis
      using assms(1) False by (simp add: fadd_zero_left fadd_NegZero_right)
  next
    case b: False
    have "fadd (Fin 0) a = a" "fadd (Fin 0) b = b"
      using assms False b by (simp_all add: fadd_zero_left)
    then show ?thesis by (metis fadd_commute)
  qed
qed

lemma aggregate_two_rows:
  assumes "normalize_row ra = Some a" "normalize_row rb = Some b" "m_prefix a = m_prefix b"
  shows "aggregate_rows t [ra, rb] [] =
     [((t, m_prefix a),
       \<lparr>table = t, prefix = m_prefix a,
        total_size_bytes = m_total_size a + m_total_size b,
        total_objects = m_object_count a + m_object_count b,
        total_cost_usd = fadd (fadd (Fin 0) (m_estimated_cost a)) (m_estimated_cost b),
        breakdown = [entry_of a, entry_of b]\<rparr>)]"
  using assms
  by (simp add: aggregate_rows_def process_row_def add_measurement_def new_prefix_data_def
      bump_def)

text \<open>
  C6, as the code has it: two rows of the same (table, prefix), aggregated in either
  order from an empty mapping, give one accumulator with the same key, the same three
  totals and the same breakdown entries; the breakdown list is in arrival order, so
  one list is the reverse of the other.
\<close>

theorem two_rows_commute:
  assumes "normalize_row ra = Some a" "normalize_row rb = Some b" "m_prefix a = m_prefix b"
  shows "\<exists>d1 d2.
     aggregate_rows t [ra, rb] [] = [((t, m_prefix a), d1)] \<and>
     aggregate_rows t [rb, ra] [] = [((t, m_prefix a), d2)] \<and>
     table d1 = table d2 \<and> prefix d1 = prefix d2 \<and>
     total_size_bytes d1 = total_size_bytes d2 \<and>
     total_objects d1 = total_objects d2 \<and>
     total_cost_usd d1 = total_cost_usd d2 \<and>
     breakdown d1 = [entry_of a, entry_of b] \<and>
     breakdown d2 = [entry_of b, entry_of a] \<and>
     mset (breakdown d1) = mset (breakdown d2)"
proof -
  have da: "is_double (m_estimated_cost a)" and db: "is_double (m_estimated_cost b)"
    using assms(1,2) is_double_float_or_zero
    by (auto simp: normalize_row_def split: if_splits)
  note c = fadd_two_commute [OF da db]
  show ?thesis
    unfolding aggregate_two_rows [OF assms(1,2,3)]
      aggregate_two_rows [OF assms(2,1) assms(3) [symmetric]]
    by (simp add: c assms(3))
qed

lemma normalize_row_examples:
  "normalize_row [''a'', ''STANDARD'', '''', ''10'', ''1073741824'', ''21.0''] =
     Some \<lparr>m_prefix = ''a'', m_storage_class = ''STANDARD'', m_itt = '''',
           m_object_count = 10, m_total_size = 1073741824, m_estimated_cost = Fin 21\<rparr>"
  "normalize_row [''a'', ''GLACIER'', '''', ''4'', ''2048'', ''3.5''] =
     Some \<lparr>m_prefix = ''a'', m_storage_class = ''GLACIER'', m_itt = '''',
           m_object_count = 4, m_total_size = 2048, m_estimated_cost = Fin (7 / 2)\<rparr>"
  by code_simp+

lemma fadd_example: "fadd (Fin 21) (Fin (7 / 2)) = Fin (49 / 2)"
  by code_simp

text \<open>A STANDARD row and a GLACIER row of prefix \<open>a\<close>, in both orders.\<close>

theorem two_rows_commute_witness:
  "map (\<lambda>kd. (fst kd, total_size_bytes (snd kd), total_objects (snd kd), total_cost_usd (snd kd)))
     (aggregate_rows ''t''
        [[''a'', ''STANDARD'', '''', ''10'', ''1073741824'', ''21.0''],
         [''a'', ''GLACIER'', '''', ''4'', ''2048'', ''3.5'']] []) =
   map (\<lambda>kd. (fst kd, total_size_bytes (snd kd), total_objects (snd kd), total_cost_usd (snd kd)))
     (aggregate_rows ''t''
        [[''a'', ''GLACIER'', '''', ''4'', ''2048'', ''3.5''],
         [''a'', ''STANDARD'', '''', ''10'', ''1073741824'', ''21.0'']] [])"
  using two_rows_commute [OF normalize_row_examples(1) normalize_row_examples(2), of "''t''"]
  by auto

text \<open>
  The same two rows: the accumulators differ, since the breakdown list of the first
  order starts with the STANDARD entry and that of the second with the GLACIER entry.
\<close>

theorem two_rows_order_counterexample:
  "aggregate_rows ''t''
        [[''a'', ''STANDARD'', '''', ''10'', ''1073741824'', ''21.0''],
         [''a'', ''GLACIER'', '''', ''4'', ''2048'', ''3.5'']] [] \<noteq>
   aggregate_rows ''t''
        [[''a'', ''GLACIER'', '''', ''4'', ''2048'', ''3.5''],
         [''a'', ''STANDARD'', '''', ''10'', ''1073741824'', ''21.0'']] []"
proof -
  have p: "m_prefix \<lparr>m_prefix = ''a'', m_storage_class = ''STANDARD'', m_itt = '''',
           m_object_count = 10, m_total_size = 1073741824, m_estimated_cost = Fin 21\<rparr> =
     m_prefix \<lparr>m_prefix = ''a'', m_storage_class = ''GLACIER'', m_itt = '''',
           m_object_count = 4, m_total_size = 2048, m_estimated_cost = Fin (7 / 2)\<rparr>"
    by simp
  show ?thesis
    unfolding aggregate_two_rows [OF normalize_row_examples(1) normalize_row_examples(2) p]
      aggregate_two_rows [OF normalize_row_examples(2) normalize_row_examples(1) p [symmetric]]
    by (simp add: entry_of_def)
qed

section \<open>Six decimals\<close>

lemma is_digit_digit_char: "0 \<le> d \<Longrightarrow> d < 10 \<Longrightarrow> is_digit (digit_char d)"
  by (simp add: is_digit_def digit_char_def of_char_of)

lemma digits_of_digits: "0 \<le> n \<Longrightarrow> list_all is_digit (digits_of n)"
proof (induction n rule: digits_of.induct)
  case (1 n)
  show ?case
  proof (cases "n < 10")
    case True
    with 1 show ?thesis by (subst digits_of.simps) (simp add: is_digit_digit_char)
  next
    case False
    with 1 have "list_all is_digit (digits_of (n div 10))" by simp
    moreover have "is_digit (digit_char (n mod 10))"
      by (rule is_digit_digit_char) simp_all
    ultimately show ?thesis using False by (subst digits_of.simps) simp
  qed
qed

lemma digits_of_nonempty: "digits_of n \<noteq> []"
  by (subst digits_of.simps) simp

lemma length_digits_of: "0 \<le> n \<Longrightarrow> n < 10 ^ k \<Longrightarrow> 0 < k \<Longrightarrow> length (digits_of n) \<le> k"
proof (induction n arbitrary: k rule: digits_of.induct)
  case (1 n)
  show ?case
  proof (cases "n < 10")
    case True
    with 1 show ?thesis by (subst digits_of.simps) simp
  next
    case False
    from 1(4) obtain j where kj: "k = Suc j" by (cases k) auto
    have "0 < j"
    proof (rule ccontr)
      assume "\<not> 0 < j"
      with kj 1(3) have "n < 10" by simp
      with False show False by simp
    qed
    with kj have j: "k = Suc j" "0 < j" by simp_all
    define x :: int where "x = 10 ^ j"
    have "n < 10 * x" using 1(3) j by (simp add: x_def)
    then have "n div 10 < x" by linarith
    then have "n div 10 < 10 ^ j" by (simp add: x_def)
    with 1 False j have "length (digits_of (n div 10)) \<le> j" by simp
    then show ?thesis using False j by (subst digits_of.simps) simp
  qed
qed

lemma pad6_digits:
  assumes "0 \<le> m" "m < 1000000"
  shows "length (pad6 m) = 6 \<and> list_all is_digit (pad6 m)"
proof -
  have "length (digits_of m) \<le> 6"
    using length_digits_of [of m 6] assms by simp
  moreover have "is_digit (CHR ''0'')" by (simp add: is_digit_def)
  ultimately show ?thesis
    using digits_of_digits [OF assms(1)] by (auto simp: pad6_def Let_def list_all_iff)
qed

lemma six_decimals_intro:
  assumes "list_all is_digit ip" "ip \<noteq> []" "list_all is_digit fp" "length fp = 6"
  shows "six_decimals (ip @ ''.'' @ fp)" and "six_decimals (''-'' @ ip @ ''.'' @ fp)"
proof -
  have dot: "\<not> is_digit (CHR ''.'')" and minus: "\<not> is_digit (CHR ''-'')"
    by (simp_all add: is_digit_def)
  have tw: "takeWhile is_digit (ip @ CHR ''.'' # fp) = ip"
    using assms(1) dot by (simp add: takeWhile_append2 list_all_iff takeWhile_eq_all_conv)
  have dw: "dropWhile is_digit (ip @ CHR ''.'' # fp) = CHR ''.'' # fp"
    using assms(1) dot by (simp add: dropWhile_append2 list_all_iff)
  obtain c cs where ip: "ip = c # cs" using assms(2) by (cases ip) auto
  then have c: "c \<noteq> CHR ''-''" using assms(1) minus by auto
  show "six_decimals (ip @ ''.'' @ fp)"
    using tw dw assms c unfolding ip by (simp add: six_decimals_def Let_def)
  show "six_decimals (''-'' @ ip @ ''.'' @ fp)"
    using tw dw assms unfolding ip by (simp add: six_decimals_def Let_def)
qed

lemma six_decimals_format:
  assumes "is_finite x"
  shows "six_decimals (format_6f x)"
proof (cases x)
  case (Fin a)
  define n where "n = round_half_even (\<bar>a\<bar> * 1000000)"
  have "of_int 0 \<le> \<bar>a\<bar> * 1000000" by simp
  then have n: "0 \<le> n" unfolding n_def by (rule rhe_ge)
  then have ip: "list_all is_digit (digits_of (n div 1000000))"
    by (intro digits_of_digits) (simp add: pos_imp_zdiv_nonneg_iff)
  have fp: "length (pad6 (n mod 1000000)) = 6 \<and> list_all is_digit (pad6 (n mod 1000000))"
    by (rule pad6_digits) simp_all
  have f: "format_6f x =
      (if a < 0 then ''-'' else []) @ digits_of (n div 1000000) @ ''.'' @ pad6 (n mod 1000000)"
    unfolding Fin n_def by (simp only: format_6f.simps Let_def)
  show ?thesis
    unfolding f
    using six_decimals_intro [OF ip digits_of_nonempty conjunct2 [OF fp] conjunct1 [OF fp]]
    by (cases "a < 0") simp_all
next
  case NegZero
  have "six_decimals (''-'' @ ''0'' @ ''.'' @ ''000000'')"
    by (rule six_decimals_intro) (simp_all add: is_digit_def)
  then show ?thesis by (simp add: NegZero)
qed (use assms in \<open>simp_all add: is_finite_def\<close>)

lemma not_six_decimals_special:
  "\<not> six_decimals ''inf''" "\<not> six_decimals ''-inf''" "\<not> six_decimals ''nan''"
  by (simp_all add: six_decimals_def is_digit_def)

section \<open>The size in GB is finite\<close>

lemma round_double_Fin_bound:
  assumes "round_double q = Fin r"
  shows "\<bar>r\<bar> < pow2 1024"
proof (cases "r = 0")
  case True
  then show ?thesis using pow2_pos [of 1024] by simp
next
  case False
  then have q: "q \<noteq> 0" using assms by (auto simp: round_double_def)
  have "ilog2 \<bar>r\<bar> < 1024"
    using round_double_unfold [OF q] assms False by (auto split: if_splits)
  moreover have "\<bar>r\<bar> < pow2 (ilog2 \<bar>r\<bar> + 1)"
    using ilog2_bounds [of "\<bar>r\<bar>"] False by simp
  moreover have "pow2 (ilog2 \<bar>r\<bar> + 1) \<le> pow2 1024"
    using calculation(1) by (intro pow2_mono) simp
  ultimately show ?thesis by linarith
qed

lemma round_double_inf_bound:
  assumes "round_double q = PInf \<or> round_double q = NInf"
  shows "pow2 1023 \<le> \<bar>q\<bar>"
proof (rule ccontr)
  assume "\<not> pow2 1023 \<le> \<bar>q\<bar>"
  then have small: "\<bar>q\<bar> < pow2 1023" by simp
  have q: "q \<noteq> 0" using assms by (auto simp: round_double_def)
  define e where "e = max (ilog2 \<bar>q\<bar>) (- 1022)"
  define n where "n = round_half_even (q / pow2 (e - 52))"
  have "pow2 (ilog2 \<bar>q\<bar>) < pow2 1023"
    using ilog2_bounds [of "\<bar>q\<bar>"] q small by simp
  then have e: "e \<le> 1022" by (simp add: pow2_less_iff e_def)
  have nb: "\<bar>n\<bar> \<le> 9007199254740992"
    unfolding n_def e_def by (rule mantissa_bounds [OF q])
  have unf: "round_double q =
     (if n = 0 then (if 0 < q then Fin 0 else NegZero)
      else if 1024 \<le> ilog2 \<bar>of_int n * pow2 (e - 52)\<bar> then (if 0 < q then PInf else NInf)
      else Fin (of_int n * pow2 (e - 52)))"
    unfolding e_def n_def by (rule round_double_unfold [OF q])
  define r where "r = of_int n * pow2 (e - 52)"
  have big: "n \<noteq> 0 \<and> 1024 \<le> ilog2 \<bar>r\<bar>"
    using unf assms unfolding r_def by (auto split: if_splits)
  have u: "0 < pow2 (e - 52)" by (rule pow2_pos)
  have r0: "0 < \<bar>r\<bar>" using big u by (simp add: r_def)
  have "(of_int \<bar>n\<bar> :: rat) \<le> of_int 9007199254740992"
    using nb by (simp only: of_int_le_iff)
  then have "of_int \<bar>n\<bar> \<le> pow2 53" by (simp add: pow2_53)
  then have "\<bar>r\<bar> \<le> pow2 53 * pow2 (e - 52)"
    unfolding r_def abs_mantissa using u by (intro mult_right_mono) simp_all
  also have "\<dots> = pow2 (e + 1)" by (simp add: pow2_add [symmetric] add.commute)
  also have "\<dots> \<le> pow2 1023" using e by (intro pow2_mono) simp
  finally have "pow2 (ilog2 \<bar>r\<bar>) \<le> pow2 1023"
    using ilog2_bounds [OF r0] by linarith
  then have "ilog2 \<bar>r\<bar> \<le> 1023" by (simp add: pow2_le_iff)
  with big show False by simp
qed

lemma bytes_to_gb_finite:
  assumes "bytes_to_gb n = Inr g"
  shows "is_finite g"
proof -
  obtain x where x: "py_float_of_int n = Inr x" and g: "g = fdiv_pos x (1024 ^ 3)"
    using assms by (auto simp: bytes_to_gb_def split: sum.splits)
  have rx: "round_double (of_int n) = x"
    using x by (auto simp: py_float_of_int_def split: pyfloat.splits)
  show ?thesis
  proof (cases x)
    case (Fin a)
    show ?thesis
    proof (cases "a = 0")
      case True
      then show ?thesis by (simp add: g Fin is_finite_def)
    next
      case False
      have a: "\<bar>a\<bar> < pow2 1024"
        using rx Fin round_double_Fin_bound by blast
      have "\<not> (round_double (a / 1024 ^ 3) = PInf \<or> round_double (a / 1024 ^ 3) = NInf)"
      proof
        assume "round_double (a / 1024 ^ 3) = PInf \<or> round_double (a / 1024 ^ 3) = NInf"
        from round_double_inf_bound [OF this] have "pow2 1023 \<le> \<bar>a\<bar> / 1024 ^ 3"
          by (simp add: abs_divide)
        then have "pow2 1023 * 1024 ^ 3 \<le> \<bar>a\<bar>" by (simp add: pos_le_divide_eq)
        moreover have "pow2 1023 * 2 \<le> pow2 1023 * 1024 ^ 3"
          using pow2_pos [of 1023] by (intro mult_left_mono) simp_all
        moreover have "pow2 1024 = pow2 1023 * 2"
          using pow2_Suc [of 1023] by simp
        ultimately show False using a by linarith
      qed
      then show ?thesis
        using False round_double_not_NaN [of "a / 1024 ^ 3"]
        by (simp add: g Fin is_finite_def)
    qed
  next
    case NegZero
    then show ?thesis by (simp add: g is_finite_def)
  next
    case NaN
    then show ?thesis using rx round_double_not_NaN by metis
  qed (use x in \<open>auto simp: py_float_of_int_def split: pyfloat.splits\<close>)
qed

section \<open>The rendered numbers\<close>

lemma example_one_gib:
  "aggregate [(''t'', [[''h''],
      [''a'', ''STANDARD'', '''', ''10'', ''1073741824'', ''21.0'']])] =
   [((''t'', ''a''),
     \<lparr>table = ''t'', prefix = ''a'', total_size_bytes = 1073741824, total_objects = 10,
      total_cost_usd = Fin 21,
      breakdown =
        [\<lparr>storage_class = ''STANDARD'', intelligent_tiering_access_tier = [],
          object_count = 10, entry_size_bytes = 1073741824, estimated_cost_usd = Fin 21\<rparr>]\<rparr>)]"
  by code_simp

lemma format_6f_examples:
  "format_6f (Fin 1) = ''1.000000''"
  "format_6f (Fin 21) = ''21.000000''"
  by code_simp+

text \<open>
  C8, as the code has it: \<open>bytes_to_gb\<close> is \<open>float(bytes) / 2\<^sup>3\<^sup>0\<close> and, when it does not
  raise, its result is finite and is rendered with exactly six fractional digits, as is
  every finite cost; these texts are the cells of the summary row and of the breakdown
  rows. The row \<open>("a", "STANDARD", "", 10, 1073741824, 21.0)\<close> alone gives the total
  cost 21.0, the size 1.0 GB and one breakdown row whose size cell is \<open>1.000000\<close>.
\<close>

theorem rendering_six_decimals:
  "(bytes_to_gb n = Inr g \<longrightarrow>
      (\<exists>x. py_float_of_int n = Inr x \<and> g = fdiv_pos x (2 ^ 30)) \<and>
      six_decimals (format_6f g)) \<and>
   (is_finite c \<longrightarrow> six_decimals (format_6f c)) \<and>
   summary_row rank t p d g ! 3 = CStr (format_6f (total_cost_usd d)) \<and>
   summary_row rank t p d g ! 4 = CStr (format_6f g) \<and>
   breakdown_row rank t p b g ! 9 = CStr (format_6f g) \<and>
   breakdown_row rank t p b g ! 10 = CStr (format_6f (estimated_cost_usd b)) \<and>
   map (\<lambda>kd. (total_cost_usd (snd kd), bytes_to_gb (total_size_bytes (snd kd))))
     (aggregate [(''t'', [[''h''],
        [''a'', ''STANDARD'', '''', ''10'', ''1073741824'', ''21.0'']])]) =
     [(Fin 21, Inr (Fin 1))] \<and>
   report_rows 15 (aggregate [(''t'', [[''h''],
        [''a'', ''STANDARD'', '''', ''10'', ''1073741824'', ''21.0'']])]) =
     Inr [[CInt 1, CStr ''t'', CStr ''a'', CStr ''21.000000'', CStr ''1.000000'', CInt 10,
           CStr [], CStr [], CStr [], CStr [], CStr []],
          [CInt 1, CStr ''t'', CStr ''a'', CStr [], CStr [], CStr [],
           CStr ''STANDARD'', CStr [], CInt 10, CStr ''1.000000'', CStr ''21.000000'']]"
proof -
  have a: "(\<exists>x. py_float_of_int n = Inr x \<and> g = fdiv_pos x (2 ^ 30)) \<and>
           six_decimals (format_6f g)" if "bytes_to_gb n = Inr g"
  proof -
    have "(1024 :: rat) ^ 3 = 2 ^ 30" by simp
    then have "\<exists>x. py_float_of_int n = Inr x \<and> g = fdiv_pos x (2 ^ 30)"
      using that by (auto simp: bytes_to_gb_def split: sum.splits)
    moreover have "six_decimals (format_6f g)"
      using bytes_to_gb_finite [OF that] by (rule six_decimals_format)
    ultimately show ?thesis by simp
  qed
  have b: "six_decimals (format_6f c)" if "is_finite c"
    using that by (rule six_decimals_format)
  have cells: "summary_row rank t p d g ! 3 = CStr (format_6f (total_cost_usd d))"
    "summary_row rank t p d g ! 4 = CStr (format_6f g)"
    "breakdown_row rank t p b g ! 9 = CStr (format_6f g)"
    "breakdown_row rank t p b g ! 10 = CStr (format_6f (estimated_cost_usd b))"
    by (simp_all add: summary_row_def breakdown_row_def)
  have s1: "map (\<lambda>kd. (total_cost_usd (snd kd), bytes_to_gb (total_size_bytes (snd kd))))
     (aggregate [(''t'', [[''h''],
        [''a'', ''STANDARD'', '''', ''10'', ''1073741824'', ''21.0'']])]) =
     [(Fin 21, Inr (Fin 1))]"
    unfolding example_one_gib by (simp add: bytes_to_gb_examples)
  have s2: "report_rows 15 (aggregate [(''t'', [[''h''],
        [''a'', ''STANDARD'', '''', ''10'', ''1073741824'', ''21.0'']])]) =
     Inr [[CInt 1, CStr ''t'', CStr ''a'', CStr ''21.000000'', CStr ''1.000000'', CInt 10,
           CStr [], CStr [], CStr [], CStr [], CStr []],
          [CInt 1, CStr ''t'', CStr ''a'', CStr [], CStr [], CStr [],
           CStr ''STANDARD'', CStr [], CInt 10, CStr ''1.000000'', CStr ''21.000000'']]"
    unfolding example_one_gib
    by (simp add: report_rows_def top_prefixes_def all_prefixes_def sorted_reverse_def
        slice_to_def render_prefix_def bytes_to_gb_examples summary_row_def breakdown_row_def
        format_6f_examples del: format_6f.simps)
  from a b cells s1 s2 show ?thesis by blast
qed

text \<open>One GiB and a cost of 21.0: both are rendered with six decimals.\<close>

theorem rendering_six_decimals_witness:
  "bytes_to_gb 1073741824 = Inr (Fin 1) \<and>
   py_float_of_int 1073741824 = Inr (Fin 1073741824) \<and>
   Fin 1 = fdiv_pos (Fin 1073741824) (2 ^ 30) \<and>
   six_decimals (format_6f (Fin 1)) \<and>
   is_finite (Fin 21) \<and> six_decimals (format_6f (Fin 21))"
proof -
  have x: "py_float_of_int 1073741824 = Inr (Fin 1073741824)" by code_simp
  note T = rendering_six_decimals [of 1073741824 "Fin 1" "Fin 21"]
  have g: "bytes_to_gb 1073741824 = Inr (Fin 1)" by (rule bytes_to_gb_examples)
  have f: "is_finite (Fin 21)" by (simp add: is_finite_def)
  from T [THEN conjunct1] g
  obtain y where y: "py_float_of_int 1073741824 = Inr y" "Fin 1 = fdiv_pos y (2 ^ 30)"
    and s1: "six_decimals (format_6f (Fin 1))"
    by blast
  from y(1) x have "y = Fin 1073741824" by simp
  with y(2) have d: "Fin 1 = fdiv_pos (Fin 1073741824) (2 ^ 30)" by (simp only:)
  from T [THEN conjunct2, THEN conjunct1] f
  have s21: "six_decimals (format_6f (Fin 21))" by blast
  from g x d s1 f s21 show ?thesis by (simp only: simp_thms)
qed

lemma example_inf:
  "aggregate [(''t'', [[''h''], [''a'', ''STANDARD'', '''', ''1'', ''1'', ''inf'']])] =
   [((''t'', ''a''),
     \<lparr>table = ''t'', prefix = ''a'', total_size_bytes = 1, total_objects = 1,
      total_cost_usd = PInf,
      breakdown =
        [\<lparr>storage_class = ''STANDARD'', intelligent_tiering_access_tier = [],
          object_count = 1, entry_size_bytes = 1, estimated_cost_usd = PInf\<rparr>]\<rparr>)]"
  by code_simp

text \<open>
  \<open>float("inf")\<close> is a float: a row whose cost field is \<open>inf\<close> gives an accumulator
  whose total cost is rendered as \<open>inf\<close>, a text without fractional digits, in the
  summary row and in the breakdown row.
\<close>

theorem rendering_inf_counterexample:
  "map_sum id (map (\<lambda>row. (row ! 3, row ! 10)))
     (report_rows 15
        (aggregate [(''t'', [[''h''], [''a'', ''STANDARD'', '''', ''1'', ''1'', ''inf'']])])) =
     Inr [(CStr ''inf'', CStr []), (CStr [], CStr ''inf'')] \<and>
   \<not> six_decimals ''inf''"
  unfolding example_inf
  by (simp add: report_rows_def top_prefixes_def all_prefixes_def sorted_reverse_def
      slice_to_def render_prefix_def bytes_to_gb_small summary_row_def breakdown_row_def
      not_six_decimals_special)

end
